theory Spec2Isabelle
  imports Main "HOL-Library.Word" "HOL-Library.Sublist"
begin

section \<open>Strings of UTF-16 code units\<close>

text \<open>
  A TypeScript string is a sequence of 16-bit code units, and a regular expression without the
  \<^verbatim>\<open>u\<close> flag works on code units. The source text of \<^verbatim>\<open>CodeSnippet.tsx\<close> only uses ASCII
  literals; \<open>js\<close> turns such a literal into code units.
\<close>

type_synonym jchar = "16 word"
type_synonym jstring = "jchar list"

definition js :: "string \<Rightarrow> jstring" where
  "js cs = map (\<lambda>c. of_nat (of_char c)) cs"

definition in_range :: "jchar \<Rightarrow> nat \<Rightarrow> nat \<Rightarrow> bool" where
  "in_range c lo hi = (lo \<le> unat c \<and> unat c \<le> hi)"

text \<open>The character classes \<^verbatim>\<open>\d\<close>, \<^verbatim>\<open>\w\<close>, \<^verbatim>\<open>\s\<close> and \<^verbatim>\<open>.\<close> of ECMAScript.\<close>

definition is_digit :: "jchar \<Rightarrow> bool" where
  "is_digit c = in_range c 48 57"

definition is_word :: "jchar \<Rightarrow> bool" where
  "is_word c = (in_range c 97 122 \<or> in_range c 65 90 \<or> in_range c 48 57 \<or> c = 95)"

definition is_space :: "jchar \<Rightarrow> bool" where
  "is_space c = (in_range c 9 13 \<or> c = 32 \<or> c = 160 \<or> c = 5760 \<or> in_range c 8192 8202
      \<or> c = 8232 \<or> c = 8233 \<or> c = 8239 \<or> c = 8287 \<or> c = 12288 \<or> c = 65279)"

definition is_dot :: "jchar \<Rightarrow> bool" where
  "is_dot c = (c \<noteq> 10 \<and> c \<noteq> 13 \<and> c \<noteq> 8232 \<and> c \<noteq> 8233)"

text \<open>\<^verbatim>\<open>[\w-]\<close> (and \<^verbatim>\<open>[\w_-]\<close>, the same set), \<^verbatim>\<open>[^"]\<close>, \<^verbatim>\<open>[^>]\<close>.\<close>

definition is_word_hyphen :: "jchar \<Rightarrow> bool" where
  "is_word_hyphen c = (is_word c \<or> c = 45)"

definition not_quote :: "jchar \<Rightarrow> bool" where
  "not_quote c = (c \<noteq> 34)"

definition not_gt :: "jchar \<Rightarrow> bool" where
  "not_gt c = (c \<noteq> 62)"

section \<open>Backtracking matcher\<close>

text \<open>
  The regular expressions of \<^verbatim>\<open>highlightLine\<close> are sequences of literals, quantified character
  classes, optional literals, alternatives of literals, word boundaries and capture groups. A
  pattern is the list of its atoms; \<open>GOpen\<close> and \<open>GClose\<close> are the parentheses of a group.
  \<open>rmatch\<close> tries the atoms from left to right with the priorities of ECMAScript: a greedy
  quantifier takes a character before it tries the rest of the pattern, a lazy one tries the rest
  first, an optional literal is tried present before absent, alternatives in their order.
  It returns the positions of the parentheses passed and the end of the match.
\<close>

datatype quant = Greedy | Lazy

datatype atom =
    Lit jstring
  | Star quant "jchar \<Rightarrow> bool"
  | Plus quant "jchar \<Rightarrow> bool"
  | Opt jstring
  | Alt "jstring list"
  | WordB
  | GOpen
  | GClose

type_synonym regex = "atom list"

definition at_boundary :: "jchar option \<Rightarrow> jstring \<Rightarrow> bool" where
  "at_boundary prev s =
     ((case prev of None \<Rightarrow> False | Some c \<Rightarrow> is_word c)
       \<noteq> (case s of [] \<Rightarrow> False | c # _ \<Rightarrow> is_word c))"

definition after_lit :: "jchar option \<Rightarrow> jstring \<Rightarrow> jchar option" where
  "after_lit prev l = (if l = [] then prev else Some (last l))"

fun aweight :: "atom \<Rightarrow> nat" where
  "aweight (Alt ls) = Suc (length ls)"
| "aweight _ = 1"

function (sequential) rmatch ::
  "regex \<Rightarrow> jchar option \<Rightarrow> jstring \<Rightarrow> nat \<Rightarrow> (nat list \<times> nat) option" where
  "rmatch [] prev s k = Some ([], k)"
| "rmatch (Lit l # as) prev s k =
     (if prefix l s then rmatch as (after_lit prev l) (drop (length l) s) (k + length l)
      else None)"
| "rmatch (Star Lazy p # as) prev s k =
     (case rmatch as prev s k of
        Some r \<Rightarrow> Some r
      | None \<Rightarrow>
          (case s of
             [] \<Rightarrow> None
           | c # cs \<Rightarrow> if p c then rmatch (Star Lazy p # as) (Some c) cs (Suc k) else None))"
| "rmatch (Star Greedy p # as) prev s k =
     (case s of
        [] \<Rightarrow> rmatch as prev s k
      | c # cs \<Rightarrow>
          if p c then
            (case rmatch (Star Greedy p # as) (Some c) cs (Suc k) of
               Some r \<Rightarrow> Some r
             | None \<Rightarrow> rmatch as prev s k)
          else rmatch as prev s k)"
| "rmatch (Plus q p # as) prev s k =
     (case s of
        [] \<Rightarrow> None
      | c # cs \<Rightarrow> if p c then rmatch (Star q p # as) (Some c) cs (Suc k) else None)"
| "rmatch (Opt l # as) prev s k =
     (case (if prefix l s
            then rmatch as (after_lit prev l) (drop (length l) s) (k + length l)
            else None) of
        Some r \<Rightarrow> Some r
      | None \<Rightarrow> rmatch as prev s k)"
| "rmatch (Alt [] # as) prev s k = None"
| "rmatch (Alt (l # ls) # as) prev s k =
     (case (if prefix l s
            then rmatch as (after_lit prev l) (drop (length l) s) (k + length l)
            else None) of
        Some r \<Rightarrow> Some r
      | None \<Rightarrow> rmatch (Alt ls # as) prev s k)"
| "rmatch (WordB # as) prev s k = (if at_boundary prev s then rmatch as prev s k else None)"
| "rmatch (GOpen # as) prev s k = map_option (\<lambda>(ms, e). (k # ms, e)) (rmatch as prev s k)"
| "rmatch (GClose # as) prev s k = map_option (\<lambda>(ms, e). (k # ms, e)) (rmatch as prev s k)"
  by pat_completeness auto

termination
  by (relation "measures [\<lambda>(as, prev, s, k). sum_list (map aweight as),
                          \<lambda>(as, prev, s, k). length s]") auto

text \<open>The texts of the groups, from the positions of their parentheses in order.\<close>

fun groups :: "jstring \<Rightarrow> nat list \<Rightarrow> jstring list" where
  "groups s (a # b # ms) = take (b - a) (drop a s) # groups s ms"
| "groups s ms = []"

text \<open>
  \<open>exec\<close> is one attempt at the start of \<open>s\<close>, the previous character being \<open>prev\<close>: the
  length of the match and the captures, the whole match first (\<^verbatim>\<open>$0\<close>, then \<^verbatim>\<open>$1\<close>, ...).
\<close>

definition exec :: "regex \<Rightarrow> jchar option \<Rightarrow> jstring \<Rightarrow> (nat \<times> jstring list) option" where
  "exec re prev s =
     (case rmatch re prev s 0 of
        None \<Rightarrow> None
      | Some (ms, e) \<Rightarrow> Some (e, take e s # groups s ms))"

definition grp :: "jstring list \<Rightarrow> nat \<Rightarrow> jstring" where
  "grp caps i = (if i < length caps then caps ! i else [])"

section \<open>Global replacement\<close>

text \<open>
  \<^verbatim>\<open>s.replace(/re/g, r)\<close> finds the matches from left to right, each search starting where the
  last match ended (one character further after an empty match), and then builds the result from
  the text between the matches and the replacement of each match. \<open>scan\<close> is the first half: the
  line cut into the characters left alone and the matches with their captures.
\<close>

datatype piece = Text jchar | Match "jstring list"

function scan :: "regex \<Rightarrow> jchar option \<Rightarrow> jstring \<Rightarrow> piece list" where
  "scan re prev s =
     (case exec re prev s of
        None \<Rightarrow> (case s of [] \<Rightarrow> [] | c # cs \<Rightarrow> Text c # scan re (Some c) cs)
      | Some (e, caps) \<Rightarrow>
          (case s of
             [] \<Rightarrow> [Match caps]
           | c # cs \<Rightarrow>
               if e = 0 then Match caps # Text c # scan re (Some c) cs
               else Match caps # scan re (Some (s ! (e - 1))) (drop e s)))"
  by pat_completeness auto

termination
  by (relation "measure (\<lambda>(re, prev, s). length s)") auto

declare scan.simps [simp del]

text \<open>The second half, for a replacement computed from the captures without side effect.\<close>

fun render :: "(jstring list \<Rightarrow> jstring) \<Rightarrow> piece list \<Rightarrow> jstring" where
  "render f [] = []"
| "render f (Text c # ps) = c # render f ps"
| "render f (Match caps # ps) = f caps @ render f ps"

definition replace_all :: "regex \<Rightarrow> (jstring list \<Rightarrow> jstring) \<Rightarrow> jstring \<Rightarrow> jstring" where
  "replace_all re f s = render f (scan re None s)"

text \<open>
  The same for a replacement function that also changes a state (the array \<^verbatim>\<open>tags\<close> of the
  masking step): the function is called once for each match, from left to right.
\<close>

fun render_st ::
  "('st \<Rightarrow> jstring list \<Rightarrow> jstring \<times> 'st) \<Rightarrow> 'st \<Rightarrow> piece list \<Rightarrow> jstring \<times> 'st" where
  "render_st f st [] = ([], st)"
| "render_st f st (Text c # ps) = (let (out, st') = render_st f st ps in (c # out, st'))"
| "render_st f st (Match caps # ps) =
     (let (r, st1) = f st caps;
          (out, st') = render_st f st1 ps
      in (r @ out, st'))"

section \<open>The line highlighter of \<^verbatim>\<open>CodeSnippet.tsx\<close>\<close>

text \<open>The markup of every replacement: \<^verbatim>\<open><span style="..."></span>\<close> around a text.\<close>

definition span_open :: "string \<Rightarrow> jstring" where
  \<open>span_open style = js ''<span style="'' @ js style @ js ''">''\<close>

definition span_close :: jstring where
  "span_close = js ''</span>''"

definition span :: "string \<Rightarrow> jstring \<Rightarrow> jstring" where
  "span style body = span_open style @ body @ span_close"

subsection \<open>Step 1: escaping\<close>

definition escape_html :: "jstring \<Rightarrow> jstring" where
  "escape_html raw =
     replace_all [Lit (js ''>'')] (\<lambda>_. js ''&gt;'')
       (replace_all [Lit (js ''<'')] (\<lambda>_. js ''&lt;'')
         (replace_all [Lit (js ''&'')] (\<lambda>_. js ''&amp;'') raw))"

subsection \<open>Step 2: structural passes\<close>

definition liquid_keywords :: "string list" where
  "liquid_keywords =
     [''schema'', ''endschema'', ''section'', ''style'', ''javascript'', ''if'', ''for'',
      ''assign'', ''echo'', ''render'', ''include'', ''else'', ''elsif'', ''unless'', ''case'',
      ''when'', ''capture'', ''paginate'', ''form'', ''tablerow'', ''comment'', ''raw'',
      ''layout'']"

definition re_keyword :: regex where
  "re_keyword = [WordB, GOpen, Alt (map js liquid_keywords), GClose, WordB]"

definition re_liquid_tag :: regex where
  "re_liquid_tag =
     [GOpen, Lit (js ''{%''), Opt (js ''-''), GClose,
      GOpen, Star Lazy is_dot, GClose,
      GOpen, Opt (js ''-''), Lit (js ''%}''), GClose]"

definition liquid_tag_repl :: "jstring list \<Rightarrow> jstring" where
  "liquid_tag_repl caps =
     (let kw = replace_all re_keyword
                 (\<lambda>c. span ''color:#cf222e;font-weight:600'' (grp c 1)) (grp caps 2)
      in span ''color:#1a7f37;font-weight:600'' (grp caps 1) @ kw
         @ span ''color:#1a7f37;font-weight:600'' (grp caps 3))"

definition re_filter :: regex where
  "re_filter = [Lit (js ''|''), Star Greedy is_space, GOpen, Plus Greedy is_word, GClose]"

definition re_liquid_output :: regex where
  "re_liquid_output =
     [GOpen, Lit (js ''{{''), Opt (js ''-''), GClose,
      GOpen, Star Lazy is_dot, GClose,
      GOpen, Opt (js ''-''), Lit (js ''}}''), GClose]"

definition liquid_output_repl :: "jstring list \<Rightarrow> jstring" where
  "liquid_output_repl caps =
     (let filters = replace_all re_filter
                      (\<lambda>c. js ''| '' @ span ''color:#953800;font-weight:500'' (grp c 1))
                      (grp caps 2)
      in span ''color:#1a7f37;font-weight:600'' (grp caps 1)
         @ span ''color:#0550ae'' filters
         @ span ''color:#1a7f37;font-weight:600'' (grp caps 3))"

definition re_attr :: regex where
  \<open>re_attr =
     [GOpen, Plus Greedy is_word_hyphen, GClose,
      GOpen, Lit (js ''=''), GClose,
      GOpen, Alt [js ''&quot;'', js ''"''], GClose,
      GOpen, Star Lazy is_dot, GClose,
      GOpen, Alt [js ''&quot;'', js ''"''], GClose]\<close>

definition attr_repl :: "jstring list \<Rightarrow> jstring" where
  "attr_repl c =
     span ''color:#116329'' (grp c 1) @ grp c 2
     @ span ''color:#0a3069'' (grp c 3 @ grp c 4 @ grp c 5)"

definition re_html_tag :: regex where
  "re_html_tag =
     [GOpen, Lit (js ''&lt;''), Opt (js ''/''), GClose,
      GOpen, Plus Greedy is_word_hyphen, GClose,
      GOpen, Star Lazy is_dot, GClose,
      GOpen, Lit (js ''&gt;''), GClose]"

definition html_tag_repl :: "jstring list \<Rightarrow> jstring" where
  "html_tag_repl caps =
     (let ha = replace_all re_attr attr_repl (grp caps 3)
      in span ''color:#6e7781'' (grp caps 1) @ span ''color:#0550ae'' (grp caps 2) @ ha
         @ span ''color:#6e7781'' (grp caps 4))"

definition re_comment :: regex where
  "re_comment =
     [GOpen, Lit (js ''&lt;!--''), GClose,
      GOpen, Star Lazy is_dot, GClose,
      GOpen, Lit (js ''--&gt;''), GClose]"

definition comment_repl :: "jstring list \<Rightarrow> jstring" where
  "comment_repl c = span ''color:#6e7781;font-style:italic'' (grp c 1 @ grp c 2 @ grp c 3)"

definition structural :: "jstring \<Rightarrow> jstring" where
  "structural s =
     replace_all re_comment comment_repl
       (replace_all re_html_tag html_tag_repl
         (replace_all re_liquid_output liquid_output_repl
           (replace_all re_liquid_tag liquid_tag_repl s)))"

subsection \<open>Step 3: masking\<close>

definition digit_char :: "nat \<Rightarrow> jchar" where
  "digit_char d = of_nat (48 + d)"

function show_nat :: "nat \<Rightarrow> jstring" where
  "show_nat n = (if n < 10 then [digit_char n] else show_nat (n div 10) @ [digit_char (n mod 10)])"
  by pat_completeness auto

termination
  by (relation "measure id") auto

declare show_nat.simps [simp del]

definition placeholder :: "nat \<Rightarrow> jstring" where
  "placeholder i = js ''__HL_TAG_'' @ show_nat i @ js ''__''"

definition re_markup :: regex where
  "re_markup = [Lit (js ''<''), Star Greedy not_gt, Lit (js ''>'')]"

text \<open>The callback: \<^verbatim>\<open>tags.push(match); return `__HL_TAG_${tags.length - 1}__`\<close>.\<close>

definition mask_repl :: "jstring list \<Rightarrow> jstring list \<Rightarrow> jstring \<times> jstring list" where
  "mask_repl tags caps =
     (let tags' = tags @ [grp caps 0] in (placeholder (length tags' - 1), tags'))"

definition mask :: "jstring \<Rightarrow> jstring \<times> jstring list" where
  "mask s = render_st mask_repl [] (scan re_markup None s)"

subsection \<open>Step 4: content passes\<close>

definition re_json_key :: regex where
  \<open>re_json_key =
     [Lit (js ''"''), GOpen, Plus Lazy is_word_hyphen, GClose, Lit (js ''"''),
      Star Greedy is_space, Lit (js '':'')]\<close>

definition json_key_repl :: "jstring list \<Rightarrow> jstring" where
  \<open>json_key_repl c = span ''color:#953800'' (js ''"'' @ grp c 1 @ js ''"'') @ js '':''\<close>

definition re_string :: regex where
  \<open>re_string = [Lit (js ''"''), GOpen, Star Greedy not_quote, GClose, Lit (js ''"'')]\<close>

definition string_repl :: "jstring list \<Rightarrow> jstring" where
  \<open>string_repl c = span ''color:#0a3069'' (js ''"'' @ grp c 1 @ js ''"'')\<close>

definition re_number :: regex where
  "re_number =
     [WordB, GOpen, Plus Greedy is_digit, Opt (js ''.''), Star Greedy is_digit, GClose, WordB]"

definition number_repl :: "jstring list \<Rightarrow> jstring" where
  "number_repl c = span ''color:#0550ae'' (grp c 1)"

definition re_boolean :: regex where
  "re_boolean =
     [WordB, GOpen, Alt [js ''true'', js ''false'', js ''nil'', js ''null''], GClose, WordB]"

definition boolean_repl :: "jstring list \<Rightarrow> jstring" where
  "boolean_repl c = span ''color:#cf222e;font-weight:500'' (grp c 1)"

definition json_keys :: "jstring \<Rightarrow> jstring" where
  "json_keys s = replace_all re_json_key json_key_repl s"

definition strings :: "jstring \<Rightarrow> jstring" where
  "strings s = replace_all re_string string_repl s"

definition numbers :: "jstring \<Rightarrow> jstring" where
  "numbers s = replace_all re_number number_repl s"

definition booleans :: "jstring \<Rightarrow> jstring" where
  "booleans s = replace_all re_boolean boolean_repl s"

definition content :: "jstring \<Rightarrow> jstring" where
  "content s = booleans (numbers (strings (json_keys s)))"

subsection \<open>Step 5: unmasking\<close>

definition re_placeholder :: regex where
  "re_placeholder = [Lit (js ''__HL_TAG_''), GOpen, Plus Greedy is_digit, GClose, Lit (js ''__'')]"

text \<open>
  \<^verbatim>\<open>parseInt\<close> of a string of decimal digits. (The source computes in double precision; an
  index that large is beyond every array, and the lookup below gives \<^verbatim>\<open>undefined\<close> either way.)
\<close>

definition parse_int :: "jstring \<Rightarrow> nat" where
  "parse_int ds = foldl (\<lambda>a c. 10 * a + (unat c - 48)) 0 ds"

text \<open>
  \<^verbatim>\<open>tags[i]\<close> is \<^verbatim>\<open>undefined\<close> beyond the array, and \<^verbatim>\<open>replace\<close> turns the result of its
  callback into a string: \<^verbatim>\<open>undefined\<close> becomes the nine characters \<^verbatim>\<open>undefined\<close>.
\<close>

definition array_get :: "'a list \<Rightarrow> nat \<Rightarrow> 'a option" where
  "array_get xs i = (if i < length xs then Some (xs ! i) else None)"

definition to_string :: "jstring option \<Rightarrow> jstring" where
  "to_string v = (case v of None \<Rightarrow> js ''undefined'' | Some s \<Rightarrow> s)"

definition unmask_repl :: "jstring list \<Rightarrow> jstring list \<Rightarrow> jstring" where
  "unmask_repl tags c = to_string (array_get tags (parse_int (grp c 1)))"

definition unmask :: "jstring list \<Rightarrow> jstring \<Rightarrow> jstring" where
  "unmask tags s = replace_all re_placeholder (unmask_repl tags) s"

subsection \<open>The pipeline and its caller\<close>

definition highlightLine :: "jstring \<Rightarrow> jstring" where
  "highlightLine raw =
     (let s = structural (escape_html raw);
          (m, tags) = mask s
      in unmask tags (content m))"

text \<open>
  The component renders \<^verbatim>\<open>highlightLine(line) || " "\<close> for each line: an empty string is
  falsy, and the other operand is one space, code unit 32.
\<close>

definition line_html :: "jstring \<Rightarrow> jstring" where
  "line_html line = (let h = highlightLine line in if h = [] then js '' '' else h)"

section \<open>Notions used to state the properties\<close>

text \<open>The whole-match texts of the matches of a scan, in order.\<close>

fun match_texts :: "piece list \<Rightarrow> jstring list" where
  "match_texts [] = []"
| "match_texts (Text c # ps) = match_texts ps"
| "match_texts (Match caps # ps) = grp caps 0 # match_texts ps"

definition no_match :: "regex \<Rightarrow> jstring \<Rightarrow> bool" where
  "no_match re s = (match_texts (scan re None s) = [])"

text \<open>The text handed to the number pass: masked, after the key and string passes.\<close>

definition before_numbers :: "jstring \<Rightarrow> jstring" where
  "before_numbers raw = strings (json_keys (fst (mask (structural (escape_html raw)))))"

text \<open>
  The deepest nesting of \<^verbatim>\<open><span ...>\<close> ... \<^verbatim>\<open></span>\<close> in a text: \<open>d\<close> spans are open,
  \<open>m\<close> is the deepest level seen.
\<close>

fun span_depth :: "jstring \<Rightarrow> nat \<Rightarrow> nat \<Rightarrow> nat" where
  "span_depth [] d m = m"
| "span_depth (c # cs) d m =
     (if prefix (js ''<span '') (c # cs) then span_depth cs (Suc d) (max m (Suc d))
      else if prefix (js ''</span>'') (c # cs) then span_depth cs (d - 1) m
      else span_depth cs d m)"

definition max_span_depth :: "jstring \<Rightarrow> nat" where
  "max_span_depth s = span_depth s 0 0"

definition starts_with_digit :: "jstring \<Rightarrow> bool" where
  "starts_with_digit s = (case s of [] \<Rightarrow> False | c # _ \<Rightarrow> is_digit c)"

text \<open>The no-break space U+00A0, and escaping as one step on each character.\<close>

definition nbsp :: jchar where
  "nbsp = 160"

definition escape_char :: "jchar \<Rightarrow> jstring" where
  "escape_char c =
     (if c = 38 then js ''&amp;'' else if c = 60 then js ''&lt;''
      else if c = 62 then js ''&gt;'' else [c])"

text \<open>
  The span tags that the structural passes emit, and a reading of a text against them. Outside
  of markup any character may stand. After a \<^verbatim>\<open><\<close> the text must go on as one of the emitted
  tags does, up to the \<^verbatim>\<open>>\<close> that ends the tag, or break off at the next \<^verbatim>\<open><\<close>, where a
  tag begins again. \<open>tag_run\<close> is \<open>None\<close> when the text does not read so.
\<close>

definition structural_styles :: "string list" where
  "structural_styles =
     [''color:#cf222e;font-weight:600'', ''color:#1a7f37;font-weight:600'',
      ''color:#953800;font-weight:500'', ''color:#0550ae'', ''color:#6e7781'',
      ''color:#116329'', ''color:#0a3069'', ''color:#6e7781;font-style:italic'']"

definition emitted_tags :: "jstring list" where
  "emitted_tags = span_close # map span_open structural_styles"

datatype tstate = Outside | Inside jstring

fun tag_step :: "tstate \<Rightarrow> jchar \<Rightarrow> tstate option" where
  "tag_step Outside c = Some (if c = 60 then Inside [c] else Outside)"
| "tag_step (Inside p) c =
     (if c = 60 then Some (Inside [c])
      else if c = 62 then (if p @ [c] \<in> set emitted_tags then Some Outside else None)
      else if list_ex (prefix (p @ [c])) emitted_tags then Some (Inside (p @ [c]))
      else None)"

fun tag_run :: "tstate \<Rightarrow> jstring \<Rightarrow> tstate option" where
  "tag_run q [] = Some q"
| "tag_run q (c # cs) = (case tag_step q c of None \<Rightarrow> None | Some q' \<Rightarrow> tag_run q' cs)"

text \<open>
  An entry of the mask table that is made of emitted tags only: it goes from a \<^verbatim>\<open><\<close> to the
  first \<^verbatim>\<open>>\<close>, and reads as beginnings of emitted tags followed by one whole emitted tag.
\<close>

definition made_of_tags :: "jstring \<Rightarrow> bool" where
  "made_of_tags e =
     (prefix [60] e \<and> suffix [62] e \<and> 62 \<notin> set (butlast e)
      \<and> tag_run Outside e = Some Outside)"



text \<open>
  A line is placeholder-like when it contains the beginning of a placeholder: \<^verbatim>\<open>__HL_TAG_\<close>
  followed by a digit.
\<close>

fun placeholder_like :: "jstring \<Rightarrow> bool" where
  "placeholder_like [] = False"
| "placeholder_like (c # s) =
     ((prefix (js ''__HL_TAG_'') (c # s) \<and> list_ex is_digit (take 1 (drop 9 (c # s))))
      \<or> placeholder_like s)"

text \<open>The number of opening span tags in a text, and a text without its blanks.\<close>

fun count_spans :: "jstring \<Rightarrow> nat" where
  "count_spans [] = 0"
| "count_spans (c # cs) =
     (if prefix (js ''<span '') (c # cs) then Suc (count_spans cs) else count_spans cs)"

definition non_blank :: "jstring \<Rightarrow> jstring" where
  "non_blank s = filter (\<lambda>c. \<not> is_space c) s"


section \<open>Notions used in the proofs\<close>

text \<open>
  The reading of a text against the emitted tags is monotone: what reads from inside a tag also
  reads from outside. \<open>below q q'\<close> orders the two states accordingly.
\<close>

definition below :: "tstate \<Rightarrow> tstate \<Rightarrow> bool" where
  "below q q' = (q' = Outside \<or> q = q')"

definition accepts :: "jstring \<Rightarrow> bool" where
  "accepts s = (tag_run Outside s \<noteq> None)"

text \<open>
  The positions of the parentheses of a match, as far as the pattern alone determines them:
  a parenthesis is passed where the match stands, the other atoms move it forward.
\<close>

inductive mark_shape :: "regex \<Rightarrow> nat \<Rightarrow> nat list \<Rightarrow> nat \<Rightarrow> bool" where
  ms_Nil: "mark_shape [] k [] k"
| ms_GOpen: "mark_shape as k ms e \<Longrightarrow> mark_shape (GOpen # as) k (k # ms) e"
| ms_GClose: "mark_shape as k ms e \<Longrightarrow> mark_shape (GClose # as) k (k # ms) e"
| ms_WordB: "mark_shape as k ms e \<Longrightarrow> mark_shape (WordB # as) k ms e"
| ms_Lit: "k + length l \<le> k' \<Longrightarrow> mark_shape as k' ms e \<Longrightarrow> mark_shape (Lit l # as) k ms e"
| ms_Star: "k \<le> k' \<Longrightarrow> mark_shape as k' ms e \<Longrightarrow> mark_shape (Star q p # as) k ms e"
| ms_Plus: "k \<le> k' \<Longrightarrow> mark_shape as k' ms e \<Longrightarrow> mark_shape (Plus q p # as) k ms e"
| ms_Opt: "k \<le> k' \<Longrightarrow> mark_shape as k' ms e \<Longrightarrow> mark_shape (Opt l # as) k ms e"
| ms_Alt: "k \<le> k' \<Longrightarrow> mark_shape as k' ms e \<Longrightarrow> mark_shape (Alt ls # as) k ms e"

inductive_cases mark_shape_NilE [elim!]: "mark_shape [] k ms e"
inductive_cases mark_shape_GOpenE [elim!]: "mark_shape (GOpen # as) k ms e"
inductive_cases mark_shape_GCloseE [elim!]: "mark_shape (GClose # as) k ms e"
inductive_cases mark_shape_WordBE [elim!]: "mark_shape (WordB # as) k ms e"
inductive_cases mark_shape_LitE [elim!]: "mark_shape (Lit l # as) k ms e"
inductive_cases mark_shape_StarE [elim!]: "mark_shape (Star q p # as) k ms e"
inductive_cases mark_shape_PlusE [elim!]: "mark_shape (Plus q p # as) k ms e"
inductive_cases mark_shape_OptE [elim!]: "mark_shape (Opt l # as) k ms e"
inductive_cases mark_shape_AltE [elim!]: "mark_shape (Alt ls # as) k ms e"

text \<open>
  A replacement \<open>f\<close> is tag-safe for \<open>re\<close> when, wherever a match was read, its replacement
  reads too and ends outside of markup.
\<close>

definition tag_safe :: "regex \<Rightarrow> (jstring list \<Rightarrow> jstring) \<Rightarrow> bool" where
  "tag_safe re f =
     (\<forall>prev s e caps q q' r. exec re prev s = Some (e, caps) \<longrightarrow> below q q' \<longrightarrow>
        tag_run q (take e s) = Some r \<longrightarrow> tag_run q' (f caps) = Some Outside)"

text \<open>\<open>stops c a\<close>: the atom \<open>a\<close> cannot read the character \<open>c\<close>.\<close>

fun stops :: "jchar \<Rightarrow> atom \<Rightarrow> bool" where
  "stops c (Lit l) = (c \<notin> set l)"
| "stops c (Star q p) = (\<not> p c)"
| "stops c (Plus q p) = (\<not> p c)"
| "stops c (Opt l) = (c \<notin> set l)"
| "stops c (Alt ls) = (\<forall>l \<in> set ls. c \<notin> set l)"
| "stops c WordB = True"
| "stops c GOpen = True"
| "stops c GClose = True"

text \<open>The masked text as a list of characters left alone and numbered placeholders.\<close>

datatype item = Chr jchar | Tok nat

fun flatten :: "item list \<Rightarrow> jstring" where
  "flatten [] = []"
| "flatten (Chr c # is) = c # flatten is"
| "flatten (Tok i # is) = placeholder i @ flatten is"

fun mask_items :: "nat \<Rightarrow> piece list \<Rightarrow> item list" where
  "mask_items n [] = []"
| "mask_items n (Text c # ps) = Chr c # mask_items n ps"
| "mask_items n (Match caps # ps) = Tok n # mask_items (Suc n) ps"

fun item_toks :: "item list \<Rightarrow> nat list" where
  "item_toks [] = []"
| "item_toks (Chr c # is) = item_toks is"
| "item_toks (Tok i # is) = i # item_toks is"

fun item_chars :: "item list \<Rightarrow> jchar list" where
  "item_chars [] = []"
| "item_chars (Chr c # is) = c # item_chars is"
| "item_chars (Tok i # is) = item_chars is"

fun piece_chars :: "piece list \<Rightarrow> jchar list" where
  "piece_chars [] = []"
| "piece_chars (Text c # ps) = c # piece_chars ps"
| "piece_chars (Match caps # ps) = piece_chars ps"

fun item_piece :: "item \<Rightarrow> piece" where
  "item_piece (Chr c) = Text c"
| "item_piece (Tok i) = Match [placeholder i, show_nat i]"

text \<open>The characters that occur in placeholders.\<close>

definition tok_char :: "jchar \<Rightarrow> bool" where
  "tok_char c = (c = 95 \<or> c = 72 \<or> c = 76 \<or> c = 84 \<or> c = 65 \<or> c = 71 \<or> is_digit c)"

text \<open>
  A text without the beginning of a placeholder, \<^verbatim>\<open>__HL_TAG_\<close> and a digit; for a masked text
  the same of its characters, every placeholder counting as one character that no placeholder
  has.
\<close>

definition headless :: "jstring \<Rightarrow> bool" where
  "headless s = (\<forall>d. is_digit d \<longrightarrow> \<not> sublist (js ''__HL_TAG_'' @ [d]) s)"

fun marks :: "item list \<Rightarrow> jstring" where
  "marks [] = []"
| "marks (Chr c # is) = c # marks is"
| "marks (Tok i # is) = 0 # marks is"

text \<open>
  The markup that a pass puts into the text begins and ends with a character that no
  placeholder has, and has no underscore. \<open>grown is is'\<close>: the text \<open>is'\<close> is \<open>is\<close> with markup put
  in, in places together with blanks taken out.
\<close>

definition markup :: "jstring \<Rightarrow> bool" where
  "markup x = (x \<noteq> [] \<and> \<not> tok_char (hd x) \<and> \<not> tok_char (last x) \<and> 95 \<notin> set x)"

inductive grown :: "item list \<Rightarrow> item list \<Rightarrow> bool" where
  grown_Nil: "grown [] []"
| grown_keep: "grown is is' \<Longrightarrow> grown (i # is) (i # is')"
| grown_put: "grown is is' \<Longrightarrow> markup x \<Longrightarrow> list_all is_space d \<Longrightarrow>
     grown (map Chr d @ is) (map Chr x @ is')"

definition grows :: "jstring \<Rightarrow> jstring \<Rightarrow> bool" where
  "grows s s' = grown (map Chr s) (map Chr s')"

definition growing :: "regex \<Rightarrow> (jstring list \<Rightarrow> jstring) \<Rightarrow> bool" where
  "growing re f =
     (\<forall>prev s e caps. exec re prev s = Some (e, caps) \<longrightarrow> grows (take e s) (f caps))"

text \<open>The text that unmasking makes of a masked text.\<close>

definition expand :: "jstring list \<Rightarrow> item list \<Rightarrow> jstring" where
  "expand tags is = render (unmask_repl tags) (map item_piece is)"

text \<open>
  A pass is blind to the placeholders when no match begins inside one, and aligned when a match
  is made of whole placeholders and characters, and its replacement is the match grown.
\<close>

definition token_blind :: "regex \<Rightarrow> bool" where
  "token_blind re =
     (\<forall>i a b prev rest. placeholder i = a @ b \<longrightarrow> b \<noteq> [] \<longrightarrow>
        exec re (if a = [] then prev else Some (last a)) (b @ rest) = None)"

definition aligned :: "regex \<Rightarrow> (jstring list \<Rightarrow> jstring) \<Rightarrow> bool" where
  "aligned re f =
     (\<forall>is prev e caps. exec re prev (flatten is) = Some (e, caps) \<longrightarrow>
        (\<exists>xs ys ins. is = xs @ ys \<and> xs \<noteq> [] \<and> e = length (flatten xs) \<and> f caps = flatten ins
           \<and> grown xs ins))"

text \<open>
  \<open>kept is is'\<close>: what the passes keep of a masked text: its placeholders in their order, its
  being without the beginning of a placeholder outside of them, and every character other than
  a blank of what unmasking makes of it.
\<close>

definition kept :: "item list \<Rightarrow> item list \<Rightarrow> bool" where
  "kept is is' =
     (item_toks is' = item_toks is \<and> (headless (marks is) \<longrightarrow> headless (marks is'))
      \<and> (\<forall>tags. subseq (non_blank (expand tags is)) (expand tags is')))"

section \<open>Lemmas about scanning and matching\<close>

lemma scan_Nil: "exec re prev [] = None \<Longrightarrow> scan re prev [] = []"
  by (subst scan.simps) simp

lemma scan_text_step:
  "exec re prev (c # cs) = None \<Longrightarrow> scan re prev (c # cs) = Text c # scan re (Some c) cs"
  by (subst scan.simps) simp

lemma scan_match_step:
  "exec re prev s = Some (e, caps) \<Longrightarrow> 0 < e \<Longrightarrow> s \<noteq> [] \<Longrightarrow>
     scan re prev s = Match caps # scan re (Some (s ! (e - 1))) (drop e s)"
  by (subst scan.simps) (simp split: list.splits)

lemma take_length_append: "n = length a \<Longrightarrow> s = a @ r \<Longrightarrow> take n s = a"
  by simp






lemma exec_single:
  "exec [Lit [a]] prev s = (case s of [] \<Rightarrow> None | c # cs \<Rightarrow> if c = a then Some (1, [[c]]) else None)"
  by (cases s) (auto simp: exec_def)

lemma render_single:
  "render (\<lambda>_. r) (scan [Lit [a]] prev s) = concat (map (\<lambda>c. if c = a then r else [c]) s)"
proof (induction s arbitrary: prev)
  case Nil
  show ?case by (subst scan.simps) (simp add: exec_single)
next
  case (Cons c cs)
  show ?case by (subst scan.simps) (simp add: exec_single Cons.IH)
qed

lemma js_simps:
  "js ''&'' = [38]" "js ''<'' = [60]" "js ''>'' = [62]"
  "js ''&amp;'' = [38, 97, 109, 112, 59]" "js ''&lt;'' = [38, 108, 116, 59]"
  "js ''&gt;'' = [38, 103, 116, 59]"
  by (simp_all add: js_def)

lemma escape_html_chars: "escape_html raw = concat (map escape_char raw)"
proof -
  have "escape_html raw =
      concat (map (\<lambda>c. if c = 62 then js ''&gt;'' else [c])
        (concat (map (\<lambda>c. if c = 60 then js ''&lt;'' else [c])
          (concat (map (\<lambda>c. if c = 38 then js ''&amp;'' else [c]) raw)))))"
    by (simp add: escape_html_def replace_all_def render_single js_simps(1-3))
  also have "\<dots> = concat (map escape_char raw)"
    by (induction raw) (simp_all add: escape_char_def js_simps)
  finally show ?thesis .
qed

declare rmatch.simps(3,4,5) [simp del]

lemma star_greedy_run:
  assumes "list_all p ds" and "r = [] \<or> \<not> p (hd r)"
    and "rmatch as (after_lit prev ds) r (k + length ds) = Some res"
  shows "rmatch (Star Greedy p # as) prev (ds @ r) k = Some res"
  using assms
proof (induction ds arbitrary: prev k)
  case Nil
  then show ?case by (cases r) (auto simp: after_lit_def rmatch.simps(4))
next
  case (Cons d ds)
  have "after_lit (Some d) ds = after_lit prev (d # ds)"
    by (cases "ds = []") (simp_all add: after_lit_def)
  with Cons.prems(3) have "rmatch as (after_lit (Some d) ds) r (Suc k + length ds) = Some res"
    by simp
  from Cons.IH [OF _ Cons.prems(2) this] Cons.prems(1)
  show ?case by (simp add: rmatch.simps(4))
qed

lemma plus_greedy_run:
  assumes "list_all p ds" and "ds \<noteq> []" and "r = [] \<or> \<not> p (hd r)"
    and "rmatch as (after_lit prev ds) r (k + length ds) = Some res"
  shows "rmatch (Plus Greedy p # as) prev (ds @ r) k = Some res"
proof -
  from assms(2) obtain d ds' where D: "ds = d # ds'" by (cases ds) auto
  have "after_lit (Some d) ds' = after_lit prev ds"
    by (cases "ds' = []") (simp_all add: after_lit_def D)
  with assms(4) have "rmatch as (after_lit (Some d) ds') r (Suc k + length ds') = Some res"
    by (simp add: D)
  from star_greedy_run [of p ds' r as "Some d" "Suc k" res, OF _ assms(3) this] assms(1)
  show ?thesis by (simp add: D rmatch.simps(5))
qed

lemma unat_digit_char: "d < 10 \<Longrightarrow> unat (digit_char d) = 48 + d"
  by (simp only: digit_char_def unat_of_nat) simp

lemma is_digit_digit_char: "d < 10 \<Longrightarrow> is_digit (digit_char d)"
  by (simp add: is_digit_def in_range_def unat_digit_char)

lemma show_nat_digits: "list_all is_digit (show_nat n)"
proof (induction n rule: show_nat.induct)
  case (1 n)
  then show ?case
    by (subst show_nat.simps) (simp add: is_digit_digit_char)
qed

lemma show_nat_not_Nil: "show_nat n \<noteq> []"
  by (subst show_nat.simps) simp

lemma parse_int_snoc: "parse_int (ds @ [c]) = 10 * parse_int ds + (unat c - 48)"
  by (simp add: parse_int_def)

lemma parse_int_show_nat: "parse_int (show_nat n) = n"
proof (induction n rule: show_nat.induct)
  case (1 n)
  show ?case
  proof (cases "n < 10")
    case True
    then show ?thesis
      by (subst show_nat.simps) (simp add: parse_int_def unat_digit_char)
  next
    case False
    with 1 show ?thesis
      by (subst show_nat.simps) (simp add: parse_int_snoc unat_digit_char)
  qed
qed

lemma js_placeholder_lits:
  "js ''__HL_TAG_'' = [95, 95, 72, 76, 95, 84, 65, 71, 95]" "js ''__'' = [95, 95]"
  by (simp_all add: js_def)

lemma not_digit_underscore: "\<not> is_digit 95"
  by (simp add: is_digit_def in_range_def)

lemma rmatch_Lit_append:
  "rmatch (Lit l # as) prev (l @ r) k = rmatch as (after_lit prev l) r (k + length l)"
  by simp

lemma exec_placeholder:
  "exec re_placeholder prev (placeholder i @ r) =
     Some (length (placeholder i), [placeholder i, show_nat i])"
proof -
  let ?L = "js ''__HL_TAG_''" and ?U = "js ''__''" and ?D = "show_nat i"
  have tail: "rmatch [GClose, Lit ?U] p (?U @ r) k = Some ([k], k + length ?U)" for p k
    by (simp add: rmatch_Lit_append del: rmatch.simps(2))
  have U: "\<not> is_digit (hd (?U @ r))"
    by (simp add: js_placeholder_lits not_digit_underscore)
  have plus: "rmatch [Plus Greedy is_digit, GClose, Lit ?U] p (?D @ ?U @ r) k
      = Some ([k + length ?D], k + length ?D + length ?U)" for p k
    by (rule plus_greedy_run [OF show_nat_digits show_nat_not_Nil]) (simp_all add: U tail)
  have "rmatch re_placeholder prev (?L @ ?D @ ?U @ r) 0
      = Some ([length ?L, length ?L + length ?D], length ?L + length ?D + length ?U)"
    unfolding re_placeholder_def
    by (simp add: rmatch_Lit_append plus del: rmatch.simps(2))
  moreover have "placeholder i @ r = ?L @ ?D @ ?U @ r"
    by (simp add: placeholder_def)
  moreover have "length (placeholder i) = length ?L + length ?D + length ?U"
    by (simp add: placeholder_def)
  moreover have "take (length ?D) (drop (length ?L) (?L @ ?D @ ?U @ r)) = ?D"
    by simp
  moreover have "take (length (placeholder i)) (placeholder i @ r) = placeholder i"
    by simp
  ultimately show ?thesis
    by (simp add: exec_def)
qed

lemma exec_placeholder_Nil: "exec re_placeholder prev [] = None"
  by (simp add: exec_def re_placeholder_def js_placeholder_lits)

lemma unmask_placeholder:
  "unmask tags (placeholder i) = to_string (array_get tags i)"
proof -
  have ne: "placeholder i \<noteq> []" by (simp add: placeholder_def js_placeholder_lits)
  have "scan re_placeholder None (placeholder i) = [Match [placeholder i, show_nat i]]"
    using scan_match_step [OF exec_placeholder [of None i "[]", simplified]] ne
    by (simp add: scan_Nil exec_placeholder_Nil)
  then show ?thesis
    by (simp add: unmask_def replace_all_def unmask_repl_def grp_def parse_int_show_nat)
qed

lemma unmask_missing: "length tags \<le> i \<Longrightarrow> unmask tags (placeholder i) = js ''undefined''"
  by (simp add: unmask_placeholder array_get_def to_string_def)

lemma is_digit_is_word: "is_digit c \<Longrightarrow> is_word c"
  by (simp add: is_digit_def is_word_def)

lemma exec_number_no_digit: "s = [] \<or> \<not> is_digit (hd s) \<Longrightarrow> exec re_number prev s = None"
  by (cases s) (auto simp: exec_def re_number_def rmatch.simps(5))

lemma exec_number_no_boundary:
  "is_word c \<Longrightarrow> s \<noteq> [] \<Longrightarrow> is_word (hd s) \<Longrightarrow> exec re_number (Some c) s = None"
  by (cases s) (auto simp: exec_def re_number_def at_boundary_def)

lemma scan_number_word_run:
  assumes "list_all is_word w"
    and "(\<exists>c. prev = Some c \<and> is_word c) \<or> w = [] \<or> \<not> is_digit (hd w)"
  shows "scan re_number prev w = map Text w"
  using assms
proof (induction w arbitrary: prev)
  case Nil
  show ?case by (subst scan.simps) (simp add: exec_number_no_digit)
next
  case (Cons x xs)
  from Cons.prems have "exec re_number prev (x # xs) = None"
    by (auto simp: exec_number_no_digit exec_number_no_boundary)
  moreover from Cons.prems(1) have "scan re_number (Some x) xs = map Text xs"
    by (intro Cons.IH) simp_all
  ultimately show ?case by (subst scan.simps) simp
qed

lemma render_map_Text: "render f (map Text w) = w"
  by (induction w) simp_all

lemma render_append: "render f (ps @ qs) = render f ps @ render f qs"
proof (induction ps)
  case Nil
  show ?case by simp
next
  case (Cons p ps)
  then show ?case by (cases p) simp_all
qed

lemma render_map_Text_append: "render f (map Text w @ ps) = w @ render f ps"
  by (simp add: render_append render_map_Text)

lemma numbers_word_run:
  "list_all is_word w \<Longrightarrow> w = [] \<or> \<not> is_digit (hd w) \<Longrightarrow> numbers w = w"
  by (simp add: numbers_def replace_all_def scan_number_word_run render_map_Text)

lemma exec_number_digits:
  assumes "list_all is_digit d" and "d \<noteq> []"
  shows "exec re_number None d = Some (length d, [d, d])"
proof -
  have lw: "is_word (last d)"
    using assms by (intro is_digit_is_word) (simp add: list_all_iff)
  have hw: "is_word (hd d)"
    using assms by (intro is_digit_is_word) (cases d, simp_all)
  have tail: "rmatch [Opt (js ''.''), Star Greedy is_digit, GClose, WordB] (after_lit None d) []
      (0 + length d) = Some ([length d], length d)"
    using assms(2) lw by (simp add: after_lit_def at_boundary_def rmatch.simps(4) js_def)
  have "rmatch [Plus Greedy is_digit, Opt (js ''.''), Star Greedy is_digit, GClose, WordB] None (d @ []) 0
      = Some ([length d], length d)"
    by (rule plus_greedy_run [OF assms(1) assms(2) _ tail]) simp
  with assms(2) hw have "rmatch re_number None d 0 = Some ([0, length d], length d)"
    by (cases d) (simp_all add: re_number_def at_boundary_def)
  then show ?thesis by (simp add: exec_def)
qed

lemma numbers_digits:
  assumes "list_all is_digit d" and "d \<noteq> []"
  shows "numbers d = span ''color:#0550ae'' d"
proof -
  have "scan re_number None d = [Match [d, d]]"
    using scan_match_step [OF exec_number_digits [OF assms]] assms(2)
    by (simp add: scan_Nil exec_number_no_digit)
  then show ?thesis
    by (simp add: numbers_def replace_all_def number_repl_def grp_def)
qed

lemma placeholder_word_run: "list_all is_word (placeholder i)"
proof -
  have "list_all is_word (js ''__HL_TAG_'')" "list_all is_word (js ''__'')"
    by (simp_all add: js_placeholder_lits is_word_def in_range_def)
  moreover have "list_all is_word (show_nat i)"
    using show_nat_digits [of i] by (simp add: list_all_iff is_digit_is_word)
  ultimately show ?thesis by (simp add: placeholder_def)
qed

lemma numbers_placeholder: "numbers (placeholder i) = placeholder i"
  by (rule numbers_word_run [OF placeholder_word_run])
     (simp add: placeholder_def js_placeholder_lits not_digit_underscore)

section \<open>Lemmas about the emitted tags\<close>

lemma tag_run_append:
  "tag_run q (a @ b) = (case tag_run q a of None \<Rightarrow> None | Some q' \<Rightarrow> tag_run q' b)"
  by (induction a arbitrary: q) (simp_all split: option.splits)

lemma below_refl [simp]: "below q q"
  by (simp add: below_def)

lemma below_Outside [simp]: "below q Outside"
  by (simp add: below_def)

lemma tag_step_mono:
  assumes "below q q'" and "tag_step q c = Some r"
  shows "\<exists>r'. tag_step q' c = Some r' \<and> below r r'"
proof (cases "q = q'")
  case True
  with assms show ?thesis by auto
next
  case False
  with assms(1) have "q' = Outside" by (simp add: below_def)
  moreover from assms(2) have "c = 60 \<Longrightarrow> r = Inside [c]"
    by (cases q) auto
  ultimately show ?thesis by (auto simp: below_def)
qed

lemma tag_run_mono:
  "below q q' \<Longrightarrow> tag_run q s = Some r \<Longrightarrow> \<exists>r'. tag_run q' s = Some r' \<and> below r r'"
proof (induction s arbitrary: q q')
  case Nil
  then show ?case by simp
next
  case (Cons c cs)
  from Cons.prems(2) obtain q1 where s1: "tag_step q c = Some q1" and r1: "tag_run q1 cs = Some r"
    by (auto split: option.splits)
  from tag_step_mono [OF Cons.prems(1) s1] obtain q1' where
    s2: "tag_step q' c = Some q1'" and b: "below q1 q1'" by blast
  from Cons.IH [OF b r1] s2 show ?case by simp
qed

lemma accepts_part: "tag_run q (a @ b @ c) = Some r \<Longrightarrow> accepts b"
proof -
  assume "tag_run q (a @ b @ c) = Some r"
  then obtain q1 q2 where "tag_run q a = Some q1" "tag_run q1 b = Some q2"
    by (auto simp: tag_run_append split: option.splits)
  from tag_run_mono [OF below_Outside this(2)] show ?thesis
    by (auto simp: accepts_def)
qed

lemma accepts_whole: "tag_run q s = Some r \<Longrightarrow> accepts s"
  using accepts_part [of q "[]" s "[]" r] by simp

lemma tag_run_prefix:
  assumes "t \<in> set emitted_tags" and "prefix (60 # b) t" and "60 \<notin> set b" and "62 \<notin> set b"
  shows "tag_run q (60 # b) = Some (Inside (60 # b))"
  using assms(2-4)
proof (induction b rule: rev_induct)
  case Nil
  show ?case by (cases q) simp_all
next
  case (snoc c b)
  from snoc.prems(1) have "prefix (60 # b) t"
    by (metis append_Cons append_prefixD)
  with snoc have r: "tag_run q (60 # b) = Some (Inside (60 # b))" by simp
  from snoc.prems(1) assms(1) have "list_ex (prefix ((60 # b) @ [c])) emitted_tags"
    by (auto simp: list_ex_iff)
  with snoc.prems(2,3) have "tag_step (Inside (60 # b)) c = Some (Inside ((60 # b) @ [c]))"
    by simp
  with r show ?case
    using tag_run_append [of q "60 # b" "[c]"] by simp
qed

lemma tag_run_whole:
  assumes "t \<in> set emitted_tags" and "t = 60 # b @ [62]" and "60 \<notin> set b" and "62 \<notin> set b"
  shows "tag_run q t = Some Outside"
proof -
  have "prefix (60 # b) t" by (simp add: assms(2))
  from tag_run_prefix [OF assms(1) this assms(3,4)]
  have "tag_run q (60 # b) = Some (Inside (60 # b))" .
  moreover have "tag_step (Inside (60 # b)) 62 = Some Outside"
    using assms(1,2) by simp
  ultimately show ?thesis
    using tag_run_append [of q "60 # b" "[62]"] by (simp add: assms(2))
qed

lemma structural_styles_plain:
  "\<forall>st \<in> set structural_styles. 60 \<notin> set (js st) \<and> 62 \<notin> set (js st)"
  by code_simp

lemma js_tag_lits:
  \<open>js ''<span style="'' = [60, 115, 112, 97, 110, 32, 115, 116, 121, 108, 101, 61, 34]\<close>
  \<open>js ''">'' = [34, 62]\<close>
  \<open>js ''</span>'' = [60, 47, 115, 112, 97, 110, 62]\<close>
  by (simp_all add: js_def)

lemma emitted_tags_shape:
  assumes "t \<in> set emitted_tags"
  shows "\<exists>b. t = 60 # b @ [62] \<and> 60 \<notin> set b \<and> 62 \<notin> set b"
proof (cases "t = span_close")
  case True
  then have "t = 60 # [47, 115, 112, 97, 110] @ [62]"
    by (simp add: span_close_def js_tag_lits)
  then show ?thesis by (intro exI [of _ "[47, 115, 112, 97, 110]"]) simp
next
  case False
  with assms obtain st where st: "st \<in> set structural_styles" and t: "t = span_open st"
    by (auto simp: emitted_tags_def)
  let ?b = "[115, 112, 97, 110, 32, 115, 116, 121, 108, 101, 61, 34] @ js st @ [34]"
  from st structural_styles_plain have "60 \<notin> set (js st)" "62 \<notin> set (js st)" by auto
  then have "60 \<notin> set ?b" "62 \<notin> set ?b" by simp_all
  moreover have "t = 60 # ?b @ [62]"
    by (simp add: t span_open_def js_tag_lits)
  ultimately show ?thesis by blast
qed

lemma tag_run_emitted: "t \<in> set emitted_tags \<Longrightarrow> tag_run q (t @ x) = tag_run Outside x"
proof -
  assume t: "t \<in> set emitted_tags"
  from emitted_tags_shape [OF t] obtain b where "t = 60 # b @ [62]" "60 \<notin> set b" "62 \<notin> set b"
    by blast
  from tag_run_whole [OF t this] show ?thesis
    using tag_run_append [of q t x] by simp
qed

lemma tag_run_close [simp]: "tag_run q (span_close @ x) = tag_run Outside x"
  by (rule tag_run_emitted) (simp add: emitted_tags_def)

lemma tag_run_open:
  "st \<in> set structural_styles \<Longrightarrow> tag_run q (span_open st @ x) = tag_run Outside x"
  by (rule tag_run_emitted) (simp add: emitted_tags_def)

lemma tag_run_accepted_close [simp]:
  "accepts b \<Longrightarrow> tag_run Outside (b @ span_close @ x) = tag_run Outside x"
proof -
  assume "accepts b"
  then obtain r where "tag_run Outside b = Some r" by (auto simp: accepts_def)
  then show ?thesis
    using tag_run_append [of Outside b "span_close @ x"] by simp
qed

lemma tag_run_accepted_open:
  "accepts b \<Longrightarrow> st \<in> set structural_styles \<Longrightarrow>
     tag_run Outside (b @ span_open st @ x) = tag_run Outside x"
proof -
  assume "accepts b" and st: "st \<in> set structural_styles"
  then obtain r where "tag_run Outside b = Some r" by (auto simp: accepts_def)
  then show ?thesis
    using tag_run_append [of Outside b "span_open st @ x"] by (simp add: tag_run_open [OF st])
qed

lemma tag_run_span:
  "accepts b \<Longrightarrow> st \<in> set structural_styles \<Longrightarrow>
     tag_run q (span st b @ x) = tag_run Outside x"
  by (simp add: span_def tag_run_open)

lemma tag_run_no_lt: "60 \<notin> set s \<Longrightarrow> tag_run Outside s = Some Outside"
  by (induction s) simp_all

section \<open>Where the groups of a match lie\<close>

lemma mark_shape_weaken:
  "mark_shape (Star q p # as) k' ms e \<Longrightarrow> k \<le> k' \<Longrightarrow> mark_shape (Star q p # as) k ms e"
  by (auto intro: ms_Star le_trans)

lemma rmatch_shape: "rmatch re prev s k = Some (ms, e) \<Longrightarrow> mark_shape re k ms e"
proof (induction re prev s k arbitrary: ms e rule: rmatch.induct)
  case (1 prev s k)
  then show ?case by (simp add: ms_Nil)
next
  case (2 l as prev s k)
  then show ?case by (auto split: if_splits intro!: ms_Lit [where k' = "k + length l"])
next
  case (3 p as prev s k)
  show ?case
  proof (cases "rmatch as prev s k")
    case (Some r)
    with "3.prems" "3.IH"(1) show ?thesis by (auto simp: rmatch.simps(3) intro!: ms_Star [of k k])
  next
    case None
    with "3.prems" obtain c cs where s: "s = c # cs" and pc: "p c"
      and r: "rmatch (Star Lazy p # as) (Some c) cs (Suc k) = Some (ms, e)"
      by (auto simp: rmatch.simps(3) split: list.splits if_splits)
    from "3.IH"(2) [OF None s pc r] show ?thesis
      by (rule mark_shape_weaken) simp
  qed
next
  case (4 p as prev s k)
  show ?case
  proof (cases s)
    case Nil
    with "4.prems" "4.IH"(1) show ?thesis by (auto simp: rmatch.simps(4) intro!: ms_Star [of k k])
  next
    case (Cons c cs)
    show ?thesis
    proof (cases "p c")
      case False
      with Cons "4.prems" "4.IH"(4) show ?thesis by (auto simp: rmatch.simps(4) intro!: ms_Star [of k k])
    next
      case True
      show ?thesis
      proof (cases "rmatch (Star Greedy p # as) (Some c) cs (Suc k)")
        case None
        with True Cons "4.prems" "4.IH"(3) show ?thesis by (auto simp: rmatch.simps(4) intro!: ms_Star [of k k])
      next
        case (Some r)
        with True Cons "4.prems"
        have "rmatch (Star Greedy p # as) (Some c) cs (Suc k) = Some (ms, e)"
          by (simp add: rmatch.simps(4))
        from "4.IH"(2) [OF Cons True this] show ?thesis
          by (rule mark_shape_weaken) simp
      qed
    qed
  qed
next
  case (5 q p as prev s k)
  from "5.prems" obtain c cs where s: "s = c # cs" and pc: "p c"
    and r: "rmatch (Star q p # as) (Some c) cs (Suc k) = Some (ms, e)"
    by (auto simp: rmatch.simps(5) split: list.splits if_splits)
  from "5.IH" [OF s pc r] obtain k' where "Suc k \<le> k'" "mark_shape as k' ms e"
    by auto
  then show ?case by (intro ms_Plus [of k k']) simp_all
next
  case (6 l as prev s k)
  let ?first = "if prefix l s
            then rmatch as (after_lit prev l) (drop (length l) s) (k + length l)
            else None"
  show ?case
  proof (cases ?first)
    case None
    with "6.prems" have "rmatch as prev s k = Some (ms, e)" by simp
    from "6.IH"(2) [OF None this] show ?thesis by (auto intro!: ms_Opt [of k k])
  next
    case (Some r)
    with "6.prems" have p: "prefix l s"
      and r: "rmatch as (after_lit prev l) (drop (length l) s) (k + length l) = Some (ms, e)"
      by (simp_all split: if_splits)
    from "6.IH"(1) [OF p r] show ?thesis by (auto intro!: ms_Opt [of k "k + length l"])
  qed
next
  case (7 as prev s k)
  then show ?case by simp
next
  case (8 l ls as prev s k)
  let ?first = "if prefix l s
            then rmatch as (after_lit prev l) (drop (length l) s) (k + length l)
            else None"
  show ?case
  proof (cases ?first)
    case None
    with "8.prems" have "rmatch (Alt ls # as) prev s k = Some (ms, e)" by simp
    from "8.IH"(2) [OF None this] show ?thesis by (auto intro: ms_Alt)
  next
    case (Some r)
    with "8.prems" have p: "prefix l s"
      and r: "rmatch as (after_lit prev l) (drop (length l) s) (k + length l) = Some (ms, e)"
      by (simp_all split: if_splits)
    from "8.IH"(1) [OF p r] show ?thesis by (auto intro!: ms_Alt [of k "k + length l"])
  qed
next
  case (9 as prev s k)
  then show ?case by (auto split: if_splits intro: ms_WordB)
next
  case (10 as prev s k)
  then obtain ms' where "rmatch as prev s k = Some (ms', e)" "ms = k # ms'" by auto
  with "10.IH" show ?case by (auto intro: ms_GOpen)
next
  case (11 as prev s k)
  then obtain ms' where "rmatch as prev s k = Some (ms', e)" "ms = k # ms'" by auto
  with "11.IH" show ?case by (auto intro: ms_GClose)
qed

lemma exec_shape:
  assumes "exec re prev s = Some (e, caps)"
  obtains ms where "mark_shape re 0 ms e" and "caps = take e s # groups s ms"
  using assms rmatch_shape [of re prev s 0]
  by (auto simp: exec_def split: option.splits)

lemma take_take_drop: "a \<le> b \<Longrightarrow> take a s @ take (b - a) (drop a s) = take b s"
  by (metis le_add_diff_inverse take_add)

lemma comment_caps:
  assumes "exec re_comment prev s = Some (e, caps)"
  shows "\<exists>g1 g2 g3. caps = [g1 @ g2 @ g3, g1, g2, g3]"
proof -
  from assms obtain ms where m: "mark_shape re_comment 0 ms e" and c: "caps = take e s # groups s ms"
    by (rule exec_shape)
  from m obtain k1 k2 where k: "k1 \<le> k2" "k2 \<le> e" and ms: "ms = [0, k1, k1, k2, k2, e]"
    by (auto simp: re_comment_def)
  have "take e s = take k1 s @ take (k2 - k1) (drop k1 s) @ take (e - k2) (drop k2 s)"
    using k by (metis append_assoc take_take_drop)
  with c ms show ?thesis by simp
qed

section \<open>What a successful match has read\<close>

lemma lit_result:
  assumes "rmatch (Lit l # as) prev s k = Some x"
  obtains r where "s = l @ r" and "rmatch as (after_lit prev l) r (k + length l) = Some x"
  using assms by (auto simp: prefix_def split: if_splits)

lemma gopen_result:
  assumes "rmatch (GOpen # as) prev s k = Some (ms, e)"
  obtains ms' where "ms = k # ms'" and "rmatch as prev s k = Some (ms', e)"
  using assms by auto

lemma gclose_result:
  assumes "rmatch (GClose # as) prev s k = Some (ms, e)"
  obtains ms' where "ms = k # ms'" and "rmatch as prev s k = Some (ms', e)"
  using assms by auto

lemma wordb_result:
  assumes "rmatch (WordB # as) prev s k = Some x"
  shows "at_boundary prev s" and "rmatch as prev s k = Some x"
  using assms by (auto split: if_splits)

lemma star_read:
  assumes "rmatch (Star q p # as) prev s k = Some x"
  obtains d r prev' where "s = d @ r" and "list_all p d"
    and "rmatch as prev' r (k + length d) = Some x"
    and "prev' = after_lit prev d"
proof -
  have "\<exists>d r. s = d @ r \<and> list_all p d \<and> rmatch as (after_lit prev d) r (k + length d) = Some x"
    using assms
  proof (induction s arbitrary: prev k)
    case Nil
    then have "rmatch as prev [] k = Some x"
      by (cases q) (auto simp: rmatch.simps(3,4) split: option.splits)
    then show ?case by (auto simp: after_lit_def)
  next
    case (Cons c cs)
    show ?case
    proof (cases "rmatch as prev (c # cs) k = Some x")
      case True
      then have "c # cs = [] @ (c # cs) \<and> list_all p []
          \<and> rmatch as (after_lit prev []) (c # cs) (k + length ([] :: jstring)) = Some x"
        by (simp add: after_lit_def)
      then show ?thesis by blast
    next
      case False
      with Cons.prems have pc: "p c"
        and r: "rmatch (Star q p # as) (Some c) cs (Suc k) = Some x"
        by (cases q; auto simp: rmatch.simps(3,4) split: option.splits if_splits)+
      from Cons.IH [OF r] obtain d r' where d: "cs = d @ r'" "list_all p d"
        "rmatch as (after_lit (Some c) d) r' (Suc k + length d) = Some x" by blast
      have "after_lit (Some c) d = after_lit prev (c # d)"
        by (cases "d = []") (simp_all add: after_lit_def)
      with d pc have "c # cs = (c # d) @ r' \<and> list_all p (c # d)
          \<and> rmatch as (after_lit prev (c # d)) r' (k + length (c # d)) = Some x"
        by simp
      then show ?thesis by blast
    qed
  qed
  with that show ?thesis by blast
qed

lemma plus_read:
  assumes "rmatch (Plus q p # as) prev s k = Some x"
  obtains d r where "s = d @ r" and "list_all p d" and "d \<noteq> []"
    and "rmatch as (after_lit prev d) r (k + length d) = Some x"
proof -
  from assms obtain c cs where s: "s = c # cs" and pc: "p c"
    and r: "rmatch (Star q p # as) (Some c) cs (Suc k) = Some x"
    by (auto simp: rmatch.simps(5) split: list.splits if_splits)
  from star_read [OF r] obtain d r' where d: "cs = d @ r'" "list_all p d"
    "rmatch as (after_lit (Some c) d) r' (Suc k + length d) = Some x" by metis
  have "after_lit (Some c) d = after_lit prev (c # d)"
    by (cases "d = []") (simp_all add: after_lit_def)
  with d pc s have "s = (c # d) @ r'" "list_all p (c # d)" "c # d \<noteq> []"
    "rmatch as (after_lit prev (c # d)) r' (k + length (c # d)) = Some x"
    by simp_all
  with that show ?thesis by blast
qed

lemma opt_read:
  assumes "rmatch (Opt l # as) prev s k = Some x"
  obtains d r where "s = d @ r" and "d = l \<or> d = []"
    and "rmatch as (after_lit prev d) r (k + length d) = Some x"
proof -
  let ?first = "if prefix l s
            then rmatch as (after_lit prev l) (drop (length l) s) (k + length l)
            else None"
  show ?thesis
  proof (cases ?first)
    case None
    with assms have "rmatch as prev s k = Some x" by simp
    then have "s = [] @ s" "rmatch as (after_lit prev []) s (k + length ([] :: jstring)) = Some x"
      by (simp_all add: after_lit_def)
    with that show ?thesis by blast
  next
    case (Some y)
    with assms have "prefix l s"
      and "rmatch as (after_lit prev l) (drop (length l) s) (k + length l) = Some x"
      by (simp_all split: if_splits)
    then have "s = l @ drop (length l) s"
      "rmatch as (after_lit prev l) (drop (length l) s) (k + length l) = Some x"
      by (auto simp: prefix_def)
    with that show ?thesis by blast
  qed
qed

lemma alt_read:
  assumes "rmatch (Alt ls # as) prev s k = Some x"
  obtains l r where "l \<in> set ls" and "s = l @ r"
    and "rmatch as (after_lit prev l) r (k + length l) = Some x"
proof -
  have "\<exists>l r. l \<in> set ls \<and> s = l @ r \<and> rmatch as (after_lit prev l) r (k + length l) = Some x"
    using assms
  proof (induction ls)
    case Nil
    then show ?case by simp
  next
    case (Cons l ls)
    let ?first = "if prefix l s
            then rmatch as (after_lit prev l) (drop (length l) s) (k + length l)
            else None"
    show ?case
    proof (cases ?first)
      case None
      with Cons.prems have "rmatch (Alt ls # as) prev s k = Some x" by simp
      from Cons.IH [OF this] show ?thesis by auto
    next
      case (Some y)
      with Cons.prems have "prefix l s"
        and "rmatch as (after_lit prev l) (drop (length l) s) (k + length l) = Some x"
        by (simp_all split: if_splits)
      then have "s = l @ drop (length l) s"
        "rmatch as (after_lit prev l) (drop (length l) s) (k + length l) = Some x"
        by (auto simp: prefix_def)
      then show ?thesis by (metis list.set_intros(1))
    qed
  qed
  with that show ?thesis by blast
qed

section \<open>The structural passes emit whole tags\<close>

lemma liquid_tag_caps:
  assumes "exec re_liquid_tag prev s = Some (e, caps)"
  shows "\<exists>g1 g2 g3. caps = [g1 @ g2 @ g3, g1, g2, g3]"
proof -
  from assms obtain ms where m: "mark_shape re_liquid_tag 0 ms e"
    and c: "caps = take e s # groups s ms"
    by (rule exec_shape)
  from m obtain k1 k2 where k: "k1 \<le> k2" "k2 \<le> e" and ms: "ms = [0, k1, k1, k2, k2, e]"
    by (auto simp: re_liquid_tag_def intro: le_trans)
  have "take e s = take k1 s @ take (k2 - k1) (drop k1 s) @ take (e - k2) (drop k2 s)"
    using k by (metis append_assoc take_take_drop)
  with c ms show ?thesis by simp
qed

lemma liquid_output_caps:
  assumes "exec re_liquid_output prev s = Some (e, caps)"
  shows "\<exists>g1 g2 g3. caps = [g1 @ g2 @ g3, g1, g2, g3]"
proof -
  from assms obtain ms where m: "mark_shape re_liquid_output 0 ms e"
    and c: "caps = take e s # groups s ms"
    by (rule exec_shape)
  from m obtain k1 k2 where k: "k1 \<le> k2" "k2 \<le> e" and ms: "ms = [0, k1, k1, k2, k2, e]"
    by (auto simp: re_liquid_output_def intro: le_trans)
  have "take e s = take k1 s @ take (k2 - k1) (drop k1 s) @ take (e - k2) (drop k2 s)"
    using k by (metis append_assoc take_take_drop)
  with c ms show ?thesis by simp
qed

lemma html_tag_caps:
  assumes "exec re_html_tag prev s = Some (e, caps)"
  shows "\<exists>g1 g2 g3 g4. caps = [g1 @ g2 @ g3 @ g4, g1, g2, g3, g4]"
proof -
  from assms obtain ms where m: "mark_shape re_html_tag 0 ms e"
    and c: "caps = take e s # groups s ms"
    by (rule exec_shape)
  from m obtain k1 k2 k3 where k: "k1 \<le> k2" "k2 \<le> k3" "k3 \<le> e"
    and ms: "ms = [0, k1, k1, k2, k2, k3, k3, e]"
    by (auto simp: re_html_tag_def intro: le_trans)
  have "take e s = take k1 s @ take (k2 - k1) (drop k1 s) @ take (k3 - k2) (drop k2 s)
      @ take (e - k3) (drop k3 s)"
    using k by (metis append_assoc take_take_drop)
  with c ms show ?thesis by simp
qed

lemma attr_caps:
  assumes "exec re_attr prev s = Some (e, caps)"
  shows "\<exists>g1 g2 g3 g4 g5. caps = [g1 @ g2 @ g3 @ g4 @ g5, g1, g2, g3, g4, g5]"
proof -
  from assms obtain ms where m: "mark_shape re_attr 0 ms e"
    and c: "caps = take e s # groups s ms"
    by (rule exec_shape)
  from m obtain k1 k2 k3 k4 where k: "k1 \<le> k2" "k2 \<le> k3" "k3 \<le> k4" "k4 \<le> e"
    and ms: "ms = [0, k1, k1, k2, k2, k3, k3, k4, k4, e]"
    by (auto simp: re_attr_def intro: le_trans)
  have "take e s = take k1 s @ take (k2 - k1) (drop k1 s) @ take (k3 - k2) (drop k2 s)
      @ take (k4 - k3) (drop k3 s) @ take (e - k4) (drop k4 s)"
    using k by (metis append_assoc take_take_drop)
  with c ms show ?thesis by simp
qed

lemma keyword_caps:
  assumes "exec re_keyword prev s = Some (e, caps)"
  shows "\<exists>g1. caps = [g1, g1]"
proof -
  from assms obtain ms where m: "mark_shape re_keyword 0 ms e"
    and c: "caps = take e s # groups s ms"
    by (rule exec_shape)
  from m have "ms = [0, e]"
    by (auto simp: re_keyword_def)
  with c show ?thesis by simp
qed

lemma filter_caps:
  assumes "exec re_filter prev s = Some (e, caps)"
  shows "\<exists>x g1. caps = [124 # x @ g1, g1]"
proof -
  from assms obtain ms where m: "mark_shape re_filter 0 ms e"
    and c: "caps = take e s # groups s ms"
    by (rule exec_shape)
  from m obtain k1 where k: "1 \<le> k1" "k1 \<le> e" and ms: "ms = [k1, e]"
    by (auto simp: re_filter_def js_def intro: le_trans)
  from assms have "prefix [124] s"
    by (auto simp: exec_def re_filter_def js_def split: option.splits if_splits)
  then obtain s' where s: "s = 124 # s'" by (auto simp: prefix_def)
  from k obtain j where j: "k1 = Suc j" by (cases k1) auto
  have "take e s = take k1 s @ take (e - k1) (drop k1 s)"
    using k by (simp add: take_take_drop)
  with c ms s j show ?thesis by simp
qed

lemma exec_whole: "exec re prev s = Some (e, caps) \<Longrightarrow> grp caps 0 = take e s"
  by (auto simp: exec_def grp_def split: option.splits)

lemma tag_safeD:
  "tag_safe re f \<Longrightarrow> exec re prev s = Some (e, caps) \<Longrightarrow> below q q' \<Longrightarrow>
     tag_run q (take e s) = Some r \<Longrightarrow> tag_run q' (f caps) = Some Outside"
  unfolding tag_safe_def by blast

lemma render_tag_run:
  assumes safe: "tag_safe re f"
  shows "below q q' \<Longrightarrow> tag_run q s = Some r \<Longrightarrow>
     \<exists>r'. tag_run q' (render f (scan re prev s)) = Some r' \<and> below r r'"
proof (induction s arbitrary: q q' r prev rule: measure_induct_rule [of length])
  case (less s)
  show ?case
  proof (cases "exec re prev s")
    case None
    show ?thesis
    proof (cases s)
      case Nil
      with None less.prems show ?thesis by (simp add: scan_Nil)
    next
      case (Cons c cs)
      from less.prems(2) Cons obtain q1 where s1: "tag_step q c = Some q1"
        and r1: "tag_run q1 cs = Some r"
        by (auto split: option.splits)
      from tag_step_mono [OF less.prems(1) s1] obtain q1' where
        s2: "tag_step q' c = Some q1'" and b: "below q1 q1'" by blast
      from less.IH [OF _ b r1, of "Some c"] Cons obtain r' where
        "tag_run q1' (render f (scan re (Some c) cs)) = Some r'" "below r r'" by auto
      with None Cons s2 show ?thesis by (simp add: scan_text_step)
    qed
  next
    case (Some ec)
    then obtain e caps where ex: "exec re prev s = Some (e, caps)" by (cases ec) auto
    show ?thesis
    proof (cases "s = [] \<or> e = 0")
      case False
      then have e: "0 < e" and s: "s \<noteq> []" by simp_all
      have sc: "scan re prev s = Match caps # scan re (Some (s ! (e - 1))) (drop e s)"
        by (rule scan_match_step [OF ex e s])
      from less.prems(2) tag_run_append [of q "take e s" "drop e s"]
      obtain qm where m1: "tag_run q (take e s) = Some qm"
        and m2: "tag_run qm (drop e s) = Some r"
        by (auto split: option.splits)
      from tag_safeD [OF safe ex less.prems(1) m1]
      have f: "tag_run q' (f caps) = Some Outside" .
      have "length (drop e s) < length s" using e s by simp
      from less.IH [OF this below_Outside m2, of "Some (s ! (e - 1))"] obtain r' where
        "tag_run Outside (render f (scan re (Some (s ! (e - 1))) (drop e s))) = Some r'"
        "below r r'" by auto
      with f sc show ?thesis by (simp add: tag_run_append)
    next
      case True
      have t0: "tag_run q (take 0 s) = Some q" by simp
      have t1: "tag_run q (take e []) = Some q" by simp
      show ?thesis
      proof (cases s)
        case Nil
        with ex have sc: "scan re prev s = [Match caps]"
          by (subst scan.simps) simp
        from tag_safeD [OF safe ex [unfolded Nil] less.prems(1) t1]
        have "tag_run q' (f caps) = Some Outside" .
        with sc show ?thesis by simp
      next
        case (Cons c cs)
        with True have e: "e = 0" by simp
        from ex Cons e have sc: "scan re prev s = Match caps # Text c # scan re (Some c) cs"
          by (subst scan.simps) simp
        from tag_safeD [OF safe ex [unfolded e] less.prems(1) t0]
        have f: "tag_run q' (f caps) = Some Outside" .
        from less.prems(2) Cons obtain q1 where s1: "tag_step q c = Some q1"
          and r1: "tag_run q1 cs = Some r"
          by (auto split: option.splits)
        from tag_step_mono [OF below_Outside s1] obtain q1' where
          s2: "tag_step Outside c = Some q1'" and b: "below q1 q1'" by blast
        from less.IH [OF _ b r1, of "Some c"] Cons obtain r' where
          "tag_run q1' (render f (scan re (Some c) cs)) = Some r'" "below r r'" by auto
        with f sc s2 show ?thesis by (simp add: tag_run_append)
      qed
    qed
  qed
qed

lemma accepts_replace_all: "tag_safe re f \<Longrightarrow> accepts s \<Longrightarrow> accepts (replace_all re f s)"
proof -
  assume safe: "tag_safe re f" and "accepts s"
  then obtain r where "tag_run Outside s = Some r" by (auto simp: accepts_def)
  from render_tag_run [OF safe below_refl this, of None]
  show ?thesis by (auto simp: accepts_def replace_all_def)
qed

lemma styles_mem:
  "''color:#cf222e;font-weight:600'' \<in> set structural_styles"
  "''color:#1a7f37;font-weight:600'' \<in> set structural_styles"
  "''color:#953800;font-weight:500'' \<in> set structural_styles"
  "''color:#0550ae'' \<in> set structural_styles"
  "''color:#6e7781'' \<in> set structural_styles"
  "''color:#116329'' \<in> set structural_styles"
  "''color:#0a3069'' \<in> set structural_styles"
  "''color:#6e7781;font-style:italic'' \<in> set structural_styles"
  by (simp_all add: structural_styles_def)

lemma tag_run_accepted_span:
  "accepts a \<Longrightarrow> accepts b \<Longrightarrow> st \<in> set structural_styles \<Longrightarrow>
     tag_run Outside (a @ span st b @ x) = tag_run Outside x"
  by (simp add: span_def tag_run_accepted_open)

lemma tag_run_span_end:
  "accepts b \<Longrightarrow> st \<in> set structural_styles \<Longrightarrow> tag_run q (span st b) = Some Outside"
  using tag_run_span [of b st q "[]"] by simp

lemma tag_run_accepted_span_end:
  "accepts a \<Longrightarrow> accepts b \<Longrightarrow> st \<in> set structural_styles \<Longrightarrow>
     tag_run Outside (a @ span st b) = Some Outside"
  using tag_run_accepted_span [of a b st "[]"] by simp

lemma tag_run_seq:
  "tag_run q a = Some Outside \<Longrightarrow> tag_run Outside b = Some Outside \<Longrightarrow>
     tag_run q (a @ b) = Some Outside"
  by (simp add: tag_run_append)

lemma tag_safe_comment: "tag_safe re_comment comment_repl"
  unfolding tag_safe_def
proof (intro allI impI)
  fix prev s e caps q q' r
  assume ex: "exec re_comment prev s = Some (e, caps)" and run: "tag_run q (take e s) = Some r"
  from comment_caps [OF ex] obtain g1 g2 g3 where c: "caps = [g1 @ g2 @ g3, g1, g2, g3]"
    by blast
  with exec_whole [OF ex] run have "accepts (g1 @ g2 @ g3)"
    by (auto simp: grp_def intro: accepts_whole)
  with c show "tag_run q' (comment_repl caps) = Some Outside"
    by (simp add: comment_repl_def grp_def styles_mem tag_run_span_end)
qed

lemma tag_safe_keyword:
  "tag_safe re_keyword (\<lambda>c. span ''color:#cf222e;font-weight:600'' (grp c 1))"
  unfolding tag_safe_def
proof (intro allI impI)
  fix prev s e caps q q' r
  assume ex: "exec re_keyword prev s = Some (e, caps)" and run: "tag_run q (take e s) = Some r"
  from keyword_caps [OF ex] obtain g1 where c: "caps = [g1, g1]" by blast
  with exec_whole [OF ex] run have "accepts g1"
    by (auto simp: grp_def intro: accepts_whole)
  with c show "tag_run q' (span ''color:#cf222e;font-weight:600'' (grp caps 1)) = Some Outside"
    by (simp add: grp_def styles_mem tag_run_span_end)
qed

lemma tag_safe_liquid_tag: "tag_safe re_liquid_tag liquid_tag_repl"
  unfolding tag_safe_def
proof (intro allI impI)
  fix prev s e caps q q' r
  assume ex: "exec re_liquid_tag prev s = Some (e, caps)"
    and run: "tag_run q (take e s) = Some r"
  from liquid_tag_caps [OF ex] obtain g1 g2 g3 where c: "caps = [g1 @ g2 @ g3, g1, g2, g3]"
    by blast
  with exec_whole [OF ex] run have w: "tag_run q (g1 @ g2 @ g3) = Some r"
    by (simp add: grp_def)
  have a1: "accepts g1" using accepts_part [of q "[]" g1 "g2 @ g3" r] w by simp
  have a2: "accepts g2" using accepts_part [OF w] .
  have a3: "accepts g3" using accepts_part [of q "g1 @ g2" g3 "[]" r] w by simp
  let ?kw = "replace_all re_keyword (\<lambda>c. span ''color:#cf222e;font-weight:600'' (grp c 1)) g2"
  have ak: "accepts ?kw" by (rule accepts_replace_all [OF tag_safe_keyword a2])
  have "tag_run q' (span ''color:#1a7f37;font-weight:600'' g1
      @ (?kw @ span ''color:#1a7f37;font-weight:600'' g3)) = Some Outside"
    by (intro tag_run_seq tag_run_span_end tag_run_accepted_span_end a1 a3 ak styles_mem)
  with c show "tag_run q' (liquid_tag_repl caps) = Some Outside"
    by (simp add: liquid_tag_repl_def grp_def)
qed

lemma no_bar_in_tags: "t \<in> set emitted_tags \<Longrightarrow> 124 \<notin> set t"
proof -
  have "\<forall>st \<in> set structural_styles. 124 \<notin> set (js st)" by code_simp
  moreover assume "t \<in> set emitted_tags"
  ultimately show ?thesis
    by (auto simp: emitted_tags_def span_open_def span_close_def js_tag_lits)
qed

lemma tag_step_bar: "tag_step q 124 = Some r \<Longrightarrow> q = Outside \<and> r = Outside"
proof (cases q)
  case Outside
  assume "tag_step q 124 = Some r"
  with Outside show ?thesis by simp
next
  case (Inside p)
  assume "tag_step q 124 = Some r"
  with Inside have "list_ex (prefix (p @ [124])) emitted_tags"
    by (simp split: if_splits)
  then obtain t where "t \<in> set emitted_tags" "prefix (p @ [124]) t"
    by (auto simp: list_ex_iff)
  then have "124 \<in> set t" by (auto simp: prefix_def)
  with no_bar_in_tags [OF \<open>t \<in> set emitted_tags\<close>] show ?thesis by simp
qed

lemma tag_safe_filter:
  "tag_safe re_filter (\<lambda>c. js ''| '' @ span ''color:#953800;font-weight:500'' (grp c 1))"
  unfolding tag_safe_def
proof (intro allI impI)
  fix prev s e caps q q' r
  assume ex: "exec re_filter prev s = Some (e, caps)" and b: "below q q'"
    and run: "tag_run q (take e s) = Some r"
  from filter_caps [OF ex] obtain x g1 where c: "caps = [124 # x @ g1, g1]" by blast
  with exec_whole [OF ex] run have w: "tag_run q (124 # x @ g1) = Some r"
    by (simp add: grp_def)
  then obtain q1 where "tag_step q 124 = Some q1" and w1: "tag_run q1 (x @ g1) = Some r"
    by (auto split: option.splits)
  from tag_step_bar [OF this(1)] have q: "q = Outside" and q1: "q1 = Outside" by simp_all
  with b have q': "q' = Outside" by (auto simp: below_def)
  have a1: "accepts g1" using accepts_part [of q1 x g1 "[]" r] w1 by simp
  have "js ''| '' = [124, 32]" by (simp add: js_def)
  then have "tag_run q' (js ''| '' @ span ''color:#953800;font-weight:500'' g1) = Some Outside"
    using tag_run_span_end [OF a1 styles_mem(3), of Outside] by (simp add: q')
  with c show "tag_run q' (js ''| '' @ span ''color:#953800;font-weight:500'' (grp caps 1))
      = Some Outside"
    by (simp add: grp_def)
qed

lemma tag_safe_liquid_output: "tag_safe re_liquid_output liquid_output_repl"
  unfolding tag_safe_def
proof (intro allI impI)
  fix prev s e caps q q' r
  assume ex: "exec re_liquid_output prev s = Some (e, caps)"
    and run: "tag_run q (take e s) = Some r"
  from liquid_output_caps [OF ex] obtain g1 g2 g3 where c: "caps = [g1 @ g2 @ g3, g1, g2, g3]"
    by blast
  with exec_whole [OF ex] run have w: "tag_run q (g1 @ g2 @ g3) = Some r"
    by (simp add: grp_def)
  have a1: "accepts g1" using accepts_part [of q "[]" g1 "g2 @ g3" r] w by simp
  have a2: "accepts g2" using accepts_part [OF w] .
  have a3: "accepts g3" using accepts_part [of q "g1 @ g2" g3 "[]" r] w by simp
  let ?fl = "replace_all re_filter
      (\<lambda>c. js ''| '' @ span ''color:#953800;font-weight:500'' (grp c 1)) g2"
  have af: "accepts ?fl" by (rule accepts_replace_all [OF tag_safe_filter a2])
  have "tag_run q' (span ''color:#1a7f37;font-weight:600'' g1
      @ (span ''color:#0550ae'' ?fl @ span ''color:#1a7f37;font-weight:600'' g3)) = Some Outside"
    by (intro tag_run_seq tag_run_span_end a1 a3 af styles_mem)
  with c show "tag_run q' (liquid_output_repl caps) = Some Outside"
    by (simp add: liquid_output_repl_def grp_def)
qed

lemma tag_safe_attr: "tag_safe re_attr attr_repl"
  unfolding tag_safe_def
proof (intro allI impI)
  fix prev s e caps q q' r
  assume ex: "exec re_attr prev s = Some (e, caps)"
    and run: "tag_run q (take e s) = Some r"
  from attr_caps [OF ex] obtain g1 g2 g3 g4 g5 where
    c: "caps = [g1 @ g2 @ g3 @ g4 @ g5, g1, g2, g3, g4, g5]"
    by blast
  with exec_whole [OF ex] run have w: "tag_run q (g1 @ g2 @ g3 @ g4 @ g5) = Some r"
    by (simp add: grp_def)
  have a1: "accepts g1" using accepts_part [of q "[]" g1 "g2 @ g3 @ g4 @ g5" r] w by simp
  have a2: "accepts g2" using accepts_part [of q g1 g2 "g3 @ g4 @ g5" r] w by simp
  have a3: "accepts (g3 @ g4 @ g5)" using accepts_part [of q "g1 @ g2" "g3 @ g4 @ g5" "[]" r] w by simp
  have "tag_run q' (span ''color:#116329'' g1 @ (g2 @ span ''color:#0a3069'' (g3 @ g4 @ g5)))
      = Some Outside"
    by (intro tag_run_seq tag_run_span_end tag_run_accepted_span_end a1 a2 a3 styles_mem)
  with c show "tag_run q' (attr_repl caps) = Some Outside"
    by (simp add: attr_repl_def grp_def)
qed

lemma tag_safe_html_tag: "tag_safe re_html_tag html_tag_repl"
  unfolding tag_safe_def
proof (intro allI impI)
  fix prev s e caps q q' r
  assume ex: "exec re_html_tag prev s = Some (e, caps)"
    and run: "tag_run q (take e s) = Some r"
  from html_tag_caps [OF ex] obtain g1 g2 g3 g4 where
    c: "caps = [g1 @ g2 @ g3 @ g4, g1, g2, g3, g4]"
    by blast
  with exec_whole [OF ex] run have w: "tag_run q (g1 @ g2 @ g3 @ g4) = Some r"
    by (simp add: grp_def)
  have a1: "accepts g1" using accepts_part [of q "[]" g1 "g2 @ g3 @ g4" r] w by simp
  have a2: "accepts g2" using accepts_part [of q g1 g2 "g3 @ g4" r] w by simp
  have a3: "accepts g3" using accepts_part [of q "g1 @ g2" g3 g4 r] w by simp
  have a4: "accepts g4" using accepts_part [of q "g1 @ g2 @ g3" g4 "[]" r] w by simp
  let ?ha = "replace_all re_attr attr_repl g3"
  have ah: "accepts ?ha" by (rule accepts_replace_all [OF tag_safe_attr a3])
  have "tag_run q' (span ''color:#6e7781'' g1 @ (span ''color:#0550ae'' g2 @ (?ha
      @ span ''color:#6e7781'' g4))) = Some Outside"
    by (intro tag_run_seq tag_run_span_end tag_run_accepted_span_end a1 a2 a4 ah styles_mem)
  with c show "tag_run q' (html_tag_repl caps) = Some Outside"
    by (simp add: html_tag_repl_def grp_def)
qed

lemma escape_html_no_angle: "60 \<notin> set (escape_html raw) \<and> 62 \<notin> set (escape_html raw)"
proof -
  have "60 \<notin> set (escape_char c) \<and> 62 \<notin> set (escape_char c)" for c
    by (simp add: escape_char_def js_simps)
  then show ?thesis by (simp add: escape_html_chars)
qed

lemma replace_all_ends_outside:
  assumes "tag_safe re f" and "tag_run Outside s = Some Outside"
  shows "tag_run Outside (replace_all re f s) = Some Outside"
  using render_tag_run [OF assms(1) below_refl assms(2), of None]
  by (auto simp: replace_all_def below_def)

lemma structural_ends_outside: "tag_run Outside (structural (escape_html raw)) = Some Outside"
proof -
  have "tag_run Outside (escape_html raw) = Some Outside"
    using tag_run_no_lt [of "escape_html raw"] escape_html_no_angle [of raw] by simp
  then show ?thesis
    unfolding structural_def
    by (intro replace_all_ends_outside tag_safe_comment tag_safe_html_tag
        tag_safe_liquid_output tag_safe_liquid_tag)
qed

lemma accepts_structural: "accepts (structural (escape_html raw))"
proof -
  have "accepts (escape_html raw)"
    using tag_run_no_lt [of "escape_html raw"] escape_html_no_angle [of raw]
    by (simp add: accepts_def)
  then show ?thesis
    unfolding structural_def
    by (intro accepts_replace_all tag_safe_comment tag_safe_html_tag tag_safe_liquid_output
        tag_safe_liquid_tag)
qed

section \<open>The entries of the mask table\<close>

lemma js_markup_lits: "js ''<'' = [60]" "js ''>'' = [62]"
  by (simp_all add: js_def)

lemma exec_markup:
  assumes "exec re_markup prev s = Some (e, caps)"
  shows "\<exists>m rest. s = 60 # m @ 62 # rest \<and> 62 \<notin> set m \<and> e = length m + 2
     \<and> caps = [60 # m @ [62]]"
proof -
  from assms obtain ms where r: "rmatch re_markup prev s 0 = Some (ms, e)"
    and c: "caps = take e s # groups s ms"
    by (auto simp: exec_def split: option.splits)
  from r [unfolded re_markup_def js_markup_lits] obtain r1 where s1: "s = [60] @ r1"
    and m1: "rmatch [Star Greedy not_gt, Lit [62]] (after_lit prev [60]) r1
      (0 + length [60 :: jchar]) = Some (ms, e)"
    by (rule lit_result)
  from m1 obtain m r2 p2 where s2: "r1 = m @ r2" and a: "list_all not_gt m"
    and m2: "rmatch [Lit [62]] p2 r2 (0 + length [60 :: jchar] + length m) = Some (ms, e)"
    by (rule star_read)
  from m2 obtain rest where s3: "r2 = [62] @ rest"
    and m3: "rmatch [] (after_lit p2 [62]) rest
      (0 + length [60 :: jchar] + length m + length [62 :: jchar]) = Some (ms, e)"
    by (rule lit_result)
  from m3 have ms: "ms = []" and e: "e = length m + 2" by simp_all
  have s: "s = 60 # m @ 62 # rest" using s1 s2 s3 by simp
  have "62 \<notin> set m" using a by (auto simp: list_all_iff not_gt_def)
  moreover have "take e s = 60 # m @ [62]"
    using s e by (intro take_length_append [of _ _ _ rest]) simp_all
  ultimately show ?thesis using s e c ms by simp
qed

lemma tag_run_inside_stays:
  "62 \<notin> set m \<Longrightarrow> tag_run (Inside p) m = Some x \<Longrightarrow> \<exists>p'. x = Inside p'"
proof (induction m arbitrary: p)
  case Nil
  then show ?case by auto
next
  case (Cons c m)
  from Cons.prems obtain p1 where "tag_step (Inside p) c = Some (Inside p1)"
    "tag_run (Inside p1) m = Some x"
    by (auto split: option.splits if_splits)
  with Cons.IH [of p1] Cons.prems(1) show ?case by simp
qed

lemma entry_made_of_tags:
  assumes "tag_run q (60 # m @ 62 # rest) = Some r" and "62 \<notin> set m"
  shows "made_of_tags (60 # m @ [62]) \<and> tag_run Outside rest = Some r"
proof -
  have st: "tag_step q 60 = Some (Inside [60])" by (cases q) simp_all
  with assms(1) have "tag_run (Inside [60]) (m @ 62 # rest) = Some r" by simp
  then obtain x where x: "tag_run (Inside [60]) m = Some x"
    and r: "tag_run x (62 # rest) = Some r"
    by (auto simp: tag_run_append split: option.splits)
  from tag_run_inside_stays [OF assms(2) x] obtain p' where p: "x = Inside p'" by blast
  with r have s2: "tag_step (Inside p') 62 = Some Outside" and rr: "tag_run Outside rest = Some r"
    by (auto split: option.splits if_splits)
  have "tag_run Outside (60 # m @ [62]) = Some Outside"
    using x p s2 by (simp add: tag_run_append)
  moreover have "suffix [62] (60 # m @ [62])"
    by (rule suffixI [of _ "60 # m"]) simp
  ultimately show ?thesis using assms(2) rr by (simp add: made_of_tags_def)
qed


lemma render_st_mask_Match:
  "render_st mask_repl tags (Match caps # ps) =
     (placeholder (length tags) @ fst (render_st mask_repl (tags @ [grp caps 0]) ps),
      snd (render_st mask_repl (tags @ [grp caps 0]) ps))"
  by (simp add: mask_repl_def Let_def case_prod_unfold)

lemma render_st_Text:
  "render_st f st (Text c # ps) = (c # fst (render_st f st ps), snd (render_st f st ps))"
  by (simp add: case_prod_unfold Let_def)

lemma mask_entries:
  "tag_run q s = Some r \<Longrightarrow> list_all made_of_tags tags \<Longrightarrow>
     list_all made_of_tags (snd (render_st mask_repl tags (scan re_markup prev s)))"
proof (induction s arbitrary: q tags prev rule: measure_induct_rule [of length])
  case (less s)
  show ?case
  proof (cases "exec re_markup prev s")
    case None
    show ?thesis
    proof (cases s)
      case Nil
      with None less.prems show ?thesis by (simp add: scan_Nil)
    next
      case (Cons c cs)
      from less.prems(1) Cons obtain q1 where "tag_run q1 cs = Some r"
        by (auto split: option.splits)
      from less.IH [OF _ this less.prems(2), of "Some c"] Cons None show ?thesis
        by (simp add: scan_text_step render_st_Text del: render_st.simps)
    qed
  next
    case (Some ec)
    then obtain e caps where ex: "exec re_markup prev s = Some (e, caps)" by (cases ec) auto
    from exec_markup [OF ex] obtain m rest where s: "s = 60 # m @ 62 # rest"
      and m: "62 \<notin> set m" and e: "e = length m + 2" and c: "caps = [60 # m @ [62]]"
      by blast
    from entry_made_of_tags [OF less.prems(1) [unfolded s] m]
    have w: "made_of_tags (60 # m @ [62])" and rr: "tag_run Outside rest = Some r" by simp_all
    have d: "drop e s = rest" using s e by simp
    have sc: "scan re_markup prev s = Match caps # scan re_markup (Some (s ! (e - 1))) rest"
      using scan_match_step [OF ex] s e d by simp
    have lt: "length rest < length s" using s by simp
    have "list_all made_of_tags (tags @ [60 # m @ [62]])"
      using less.prems(2) w by simp
    from less.IH [OF lt rr this, of "Some (s ! (e - 1))"]
    show ?thesis
      unfolding sc c by (simp add: render_st_mask_Match grp_def del: render_st.simps)
  qed
qed

lemma mask_structural_entries:
  "list_all made_of_tags (snd (mask (structural (escape_html raw))))"
proof -
  from accepts_structural [of raw] obtain r where
    "tag_run Outside (structural (escape_html raw)) = Some r"
    by (auto simp: accepts_def)
  from mask_entries [OF this, of "[]" None] show ?thesis
    by (simp add: mask_def)
qed



section \<open>Masking and unmasking\<close>

lemma render_st_mask:
  "render_st mask_repl tags ps = (flatten (mask_items (length tags) ps), tags @ match_texts ps)"
proof (induction ps arbitrary: tags)
  case Nil
  show ?case by simp
next
  case (Cons p ps)
  show ?case
  proof (cases p)
    case (Text c)
    with Cons show ?thesis by (simp add: render_st_Text del: render_st.simps)
  next
    case (Match caps)
    with Cons [of "tags @ [grp caps 0]"] show ?thesis
      by (simp add: render_st_mask_Match del: render_st.simps)
  qed
qed

lemma item_toks_mask: "item_toks (mask_items n ps) = [n ..< n + length (match_texts ps)]"
proof (induction ps arbitrary: n)
  case Nil
  show ?case by simp
next
  case (Cons p ps)
  show ?case
  proof (cases p)
    case (Text c)
    with Cons show ?thesis by simp
  next
    case (Match caps)
    have "[n ..< n + Suc (length (match_texts ps))]
        = n # [Suc n ..< Suc n + length (match_texts ps)]"
      by (simp add: upt_conv_Cons del: upt_Suc)
    with Match Cons [of "Suc n"] show ?thesis by (simp del: upt_Suc)
  qed
qed

lemma item_chars_mask: "item_chars (mask_items n ps) = piece_chars ps"
proof (induction ps arbitrary: n)
  case Nil
  show ?case by simp
next
  case (Cons p ps)
  then show ?case by (cases p) simp_all
qed

lemma piece_chars_scan: "set (piece_chars (scan re prev s)) \<subseteq> set s"
proof (induction s arbitrary: prev rule: measure_induct_rule [of length])
  case (less s)
  show ?case
  proof (cases "exec re prev s")
    case None
    show ?thesis
    proof (cases s)
      case Nil
      with None show ?thesis by (simp add: scan_Nil)
    next
      case (Cons c cs)
      with None less.IH [of cs "Some c"] show ?thesis
        by (auto simp: scan_text_step)
    qed
  next
    case (Some ec)
    then obtain e caps where ex: "exec re prev s = Some (e, caps)" by (cases ec) auto
    show ?thesis
    proof (cases s)
      case Nil
      with ex show ?thesis by (subst scan.simps) simp
    next
      case (Cons c cs)
      show ?thesis
      proof (cases "e = 0")
        case True
        with ex Cons have "scan re prev s = Match caps # Text c # scan re (Some c) cs"
          by (subst scan.simps) simp
        with Cons less.IH [of cs "Some c"] show ?thesis by auto
      next
        case False
        with ex Cons have sc: "scan re prev s = Match caps # scan re (Some (s ! (e - 1))) (drop e s)"
          by (intro scan_match_step) simp_all
        have "length (drop e s) < length s" using False Cons by simp
        from less.IH [OF this, of "Some (s ! (e - 1))"] sc show ?thesis
          by (auto dest: in_set_dropD)
      qed
    qed
  qed
qed

lemma placeholder_not_Nil: "placeholder i \<noteq> []"
  by (simp add: placeholder_def js_placeholder_lits)

lemma scan_whole: "render (\<lambda>c. grp c 0) (scan re prev s) = s"
proof (induction s arbitrary: prev rule: measure_induct_rule [of length])
  case (less s)
  show ?case
  proof (cases "exec re prev s")
    case None
    show ?thesis
    proof (cases s)
      case Nil
      with None show ?thesis by (simp add: scan_Nil)
    next
      case (Cons c cs)
      with None less.IH [of cs "Some c"] show ?thesis
        by (simp add: scan_text_step)
    qed
  next
    case (Some ec)
    then obtain e caps where ex: "exec re prev s = Some (e, caps)" by (cases ec) auto
    note w = exec_whole [OF ex]
    show ?thesis
    proof (cases s)
      case Nil
      with ex w show ?thesis by (subst scan.simps) simp
    next
      case (Cons c cs)
      show ?thesis
      proof (cases "e = 0")
        case True
        with ex Cons have "scan re prev s = Match caps # Text c # scan re (Some c) cs"
          by (subst scan.simps) simp
        with Cons less.IH [of cs "Some c"] w True show ?thesis by simp
      next
        case False
        with ex Cons have sc: "scan re prev s = Match caps # scan re (Some (s ! (e - 1))) (drop e s)"
          by (intro scan_match_step) simp_all
        have "length (drop e s) < length s" using False Cons by simp
        from less.IH [OF this, of "Some (s ! (e - 1))"] sc w show ?thesis by simp
      qed
    qed
  qed
qed

lemma match_texts_item_pieces:
  "match_texts (map item_piece is) = map placeholder (item_toks is)"
proof (induction "is")
  case Nil
  show ?case by simp
next
  case (Cons i "is")
  then show ?case by (cases i) (simp_all add: grp_def)
qed

lemma render_unmask_items:
  "tags = pre @ match_texts ps \<Longrightarrow>
     render (unmask_repl tags) (map item_piece (mask_items (length pre) ps))
       = render (\<lambda>c. grp c 0) ps"
proof (induction ps arbitrary: pre)
  case Nil
  show ?case by simp
next
  case (Cons p ps)
  show ?case
  proof (cases p)
    case (Text c)
    with Cons show ?thesis by simp
  next
    case (Match caps)
    with Cons.prems have t: "tags = (pre @ [grp caps 0]) @ match_texts ps" by simp
    from Cons.IH [OF t] have ih: "render (unmask_repl tags)
        (map item_piece (mask_items (Suc (length pre)) ps)) = render (\<lambda>c. grp c 0) ps"
      by simp
    have "array_get tags (length pre) = Some (grp caps 0)"
      using Match Cons.prems by (simp add: array_get_def nth_append)
    then have "unmask_repl tags [placeholder (length pre), show_nat (length pre)] = grp caps 0"
      by (simp add: unmask_repl_def grp_def parse_int_show_nat to_string_def)
    with ih Match show ?thesis by simp
  qed
qed

lemma star_greedy_gt:
  "62 \<notin> set m \<Longrightarrow>
     rmatch [Star Greedy not_gt, Lit [62]] prev (m @ 62 # rest) k = Some ([], k + length m + 1)"
  by (rule star_greedy_run) (auto simp: list_all_iff not_gt_def)

lemma exec_markup_complete:
  assumes "62 \<in> set cs"
  shows "exec re_markup prev (60 # cs) \<noteq> None"
proof -
  from assms obtain m rest where "cs = m @ 62 # rest" "62 \<notin> set m"
    by (meson split_list_first)
  with star_greedy_gt [of m "after_lit prev [60]" rest 1] show ?thesis
    by (simp add: exec_def re_markup_def js_markup_lits)
qed

lemma masked_text_chars:
  "tag_run q s = Some Outside \<Longrightarrow> 60 \<notin> set (piece_chars (scan re_markup prev s))"
proof (induction s arbitrary: q prev rule: measure_induct_rule [of length])
  case (less s)
  show ?case
  proof (cases "exec re_markup prev s")
    case None
    show ?thesis
    proof (cases s)
      case Nil
      with None show ?thesis by (simp add: scan_Nil)
    next
      case (Cons c cs)
      from less.prems Cons obtain q1 where s1: "tag_step q c = Some q1"
        and r1: "tag_run q1 cs = Some Outside"
        by (auto split: option.splits)
      have "c \<noteq> 60"
      proof
        assume c: "c = 60"
        with None Cons exec_markup_complete [of cs prev] have "62 \<notin> set cs" by auto
        moreover from c s1 have "q1 = Inside [60]" by (cases q) simp_all
        ultimately show False
          using r1 tag_run_inside_stays [of cs "[60]" Outside] by simp
      qed
      with less.IH [OF _ r1, of "Some c"] Cons None show ?thesis
        by (simp add: scan_text_step)
    qed
  next
    case (Some ec)
    then obtain e caps where ex: "exec re_markup prev s = Some (e, caps)" by (cases ec) auto
    from exec_markup [OF ex] obtain m rest where s: "s = 60 # m @ 62 # rest"
      and m: "62 \<notin> set m" and e: "e = length m + 2"
      by blast
    from entry_made_of_tags [OF less.prems [unfolded s] m]
    have rr: "tag_run Outside rest = Some Outside" by simp
    have d: "drop e s = rest" using s e by simp
    have sc: "scan re_markup prev s = Match caps # scan re_markup (Some (s ! (e - 1))) rest"
      using scan_match_step [OF ex] s e d by simp
    have lt: "length rest < length s" using s by simp
    from less.IH [OF lt rr, of "Some (s ! (e - 1))"] show ?thesis
      unfolding sc by simp
  qed
qed

lemma placeholder_no_lt: "60 \<notin> set (placeholder i)"
proof -
  have "60 \<notin> set (show_nat i)"
    using show_nat_digits [of i] by (auto simp: list_all_iff is_digit_def in_range_def)
  then show ?thesis by (simp add: placeholder_def js_placeholder_lits)
qed

lemma set_flatten: "c \<in> set (flatten is) \<Longrightarrow> c \<in> set (item_chars is) \<or> (\<exists>i. c \<in> set (placeholder i))"
proof (induction "is")
  case Nil
  then show ?case by simp
next
  case (Cons i "is")
  then show ?case by (cases i) auto
qed

text \<open>The mask step on the text of the structural passes, and its undoing.\<close>

lemma mask_structural:
  fixes raw :: jstring
  defines "t \<equiv> structural (escape_html raw)"
  defines "ps \<equiv> scan re_markup None t"
  shows "mask t = (flatten (mask_items 0 ps), match_texts ps)"
  by (simp add: mask_def ps_def render_st_mask)

lemma masked_no_lt: "60 \<notin> set (fst (mask (structural (escape_html raw))))"
proof
  let ?ps = "scan re_markup None (structural (escape_html raw))"
  assume "60 \<in> set (fst (mask (structural (escape_html raw))))"
  then have "60 \<in> set (flatten (mask_items 0 ?ps))" by (simp add: mask_structural)
  from set_flatten [OF this] placeholder_no_lt have "60 \<in> set (piece_chars ?ps)"
    by (auto simp: item_chars_mask)
  with masked_text_chars [OF structural_ends_outside [of raw], of None] show False by simp
qed

lemma masked_no_entry:
  "list_all (\<lambda>e. \<not> sublist e (fst (mask (structural (escape_html raw)))))
     (snd (mask (structural (escape_html raw))))"
proof -
  have "\<not> sublist e (fst (mask (structural (escape_html raw))))"
    if "e \<in> set (snd (mask (structural (escape_html raw))))" for e
  proof
    assume "sublist e (fst (mask (structural (escape_html raw))))"
    then have "set e \<subseteq> set (fst (mask (structural (escape_html raw))))"
      by (rule set_mono_sublist)
    moreover from that mask_structural_entries [of raw] have "made_of_tags e"
      by (simp add: list_all_iff)
    then have "60 \<in> set e" by (auto simp: made_of_tags_def prefix_def)
    ultimately show False using masked_no_lt [of raw] by auto
  qed
  then show ?thesis by (simp add: list_all_iff)
qed

section \<open>Texts without the beginning of a placeholder\<close>

lemma headless_iff: "headless s \<longleftrightarrow> \<not> placeholder_like s"
proof (induction s)
  case Nil
  show ?case by (simp add: headless_def js_placeholder_lits)
next
  case (Cons c s)
  have "(\<exists>d. is_digit d \<and> prefix (js ''__HL_TAG_'' @ [d]) u)
      \<longleftrightarrow> prefix (js ''__HL_TAG_'') u \<and> list_ex is_digit (take 1 (drop 9 u))" for u
  proof
    assume "\<exists>d. is_digit d \<and> prefix (js ''__HL_TAG_'' @ [d]) u"
    then obtain d r where "is_digit d" "u = js ''__HL_TAG_'' @ d # r"
      by (auto simp: prefix_def)
    then show "prefix (js ''__HL_TAG_'') u \<and> list_ex is_digit (take 1 (drop 9 u))"
      by (simp add: js_placeholder_lits)
  next
    assume a: "prefix (js ''__HL_TAG_'') u \<and> list_ex is_digit (take 1 (drop 9 u))"
    then obtain r where u: "u = js ''__HL_TAG_'' @ r" by (auto simp: prefix_def)
    with a obtain d r' where "r = d # r'" "is_digit d"
      by (cases r) (auto simp: js_placeholder_lits)
    with u have "is_digit d \<and> prefix (js ''__HL_TAG_'' @ [d]) u" by simp
    then show "\<exists>d. is_digit d \<and> prefix (js ''__HL_TAG_'' @ [d]) u" by blast
  qed
  from this [of "c # s"] Cons show ?case
    unfolding headless_def placeholder_like.simps sublist_Cons_right by blast
qed

lemma headless_parts: "headless (a @ b) \<Longrightarrow> headless a \<and> headless b"
  unfolding headless_def by (meson sublist_appendI sublist_order.order.trans sublist_append_leftI
      sublist_append_rightI)

lemma head_chars: "is_digit d \<Longrightarrow> c \<in> set (js ''__HL_TAG_'' @ [d]) \<Longrightarrow> tok_char c"
  by (auto simp: js_placeholder_lits tok_char_def)

lemma headless_seal:
  assumes x: "x \<noteq> []" "\<not> tok_char (hd x)" "\<not> tok_char (last x)" "headless x"
    and a: "headless a" and b: "headless b"
  shows "headless (a @ x @ b)"
  unfolding headless_def
proof (intro allI impI notI)
  fix d
  assume d: "is_digit d"
  let ?p = "js ''__HL_TAG_'' @ [d]"
  assume "sublist ?p (a @ x @ b)"
  then consider "sublist ?p a" | "sublist ?p (x @ b)"
    | p1 p2 where "?p = p1 @ p2" "suffix p1 a" "prefix p2 (x @ b)" "p2 \<noteq> []"
    unfolding sublist_append [of ?p a] by (metis append_Nil2 suffix_imp_sublist)
  then show False
  proof cases
    case 1
    with a d show False by (simp add: headless_def)
  next
    case 3
    from 3(3) obtain zs where "x @ b = p2 @ zs" by (auto simp: prefix_def)
    then have "hd (x @ b) = hd (p2 @ zs)" by simp
    with 3(4) x(1) have "hd p2 = hd x" by simp
    moreover from 3(1,4) have "hd p2 \<in> set ?p" by (metis hd_in_set in_set_conv_decomp Un_iff set_append)
    ultimately show False using head_chars [OF d] x(2) by metis
  next
    case 2
    then consider "sublist ?p x" | "sublist ?p b"
      | p1 p2 where "?p = p1 @ p2" "suffix p1 x" "prefix p2 b" "p1 \<noteq> []"
      unfolding sublist_append [of ?p x] by (metis append_Nil prefix_imp_sublist)
    then show False
    proof cases
      case 1
      with x(4) d show False by (simp add: headless_def)
    next
      case 2
      with b d show False by (simp add: headless_def)
    next
      case 3
      from 3(2) obtain zs where "x = zs @ p1" by (auto simp: suffix_def)
      with 3(4) have "last p1 = last x" by simp
      moreover from 3(1,4) have "last p1 \<in> set ?p"
        by (metis last_in_set Un_iff set_append)
      ultimately show False using head_chars [OF d] x(3) by metis
    qed
  qed
qed

lemma no_underscore_headless: "95 \<notin> set x \<Longrightarrow> headless x"
  unfolding headless_def
proof (intro allI impI notI)
  fix d
  assume "95 \<notin> set x" and "sublist (js ''__HL_TAG_'' @ [d]) x"
  from set_mono_sublist [OF this(2)] this(1) show False
    by (auto simp: js_placeholder_lits)
qed

lemma headless_markup:
  "markup x \<Longrightarrow> headless a \<Longrightarrow> headless b \<Longrightarrow> headless (a @ x @ b)"
  using headless_seal [of x a b] no_underscore_headless [of x] by (simp add: markup_def)

lemma flatten_append [simp]: "flatten (xs @ ys) = flatten xs @ flatten ys"
proof (induction xs)
  case Nil
  show ?case by simp
next
  case (Cons x xs)
  then show ?case by (cases x) simp_all
qed

lemma item_toks_append [simp]: "item_toks (xs @ ys) = item_toks xs @ item_toks ys"
proof (induction xs)
  case Nil
  show ?case by simp
next
  case (Cons x xs)
  then show ?case by (cases x) simp_all
qed

lemma flatten_Chr [simp]: "flatten (map Chr s) = s"
  by (induction s) simp_all

lemma item_toks_Chr [simp]: "item_toks (map Chr s) = []"
  by (induction s) simp_all

lemma marks_append [simp]: "marks (xs @ ys) = marks xs @ marks ys"
proof (induction xs)
  case Nil
  show ?case by simp
next
  case (Cons x xs)
  then show ?case by (cases x) simp_all
qed

lemma marks_Chr [simp]: "marks (map Chr s) = s"
  by (induction s) simp_all

subsection \<open>Grown texts\<close>

lemma grown_refl: "grown is is"
  by (induction "is") (auto intro: grown.intros)

lemma grown_append: "grown a a' \<Longrightarrow> grown b b' \<Longrightarrow> grown (a @ b) (a' @ b')"
proof (induction rule: grown.induct)
  case grown_Nil
  then show ?case by simp
next
  case (grown_keep "is" is' i)
  then show ?case by (simp add: grown.grown_keep)
next
  case (grown_put "is" is' x d)
  from grown.grown_put [OF grown_put.IH [OF grown_put.prems] grown_put.hyps(2,3)]
  show ?case by simp
qed

lemma grown_markup: "markup x \<Longrightarrow> list_all is_space d \<Longrightarrow> grown (map Chr d) (map Chr x)"
  using grown_put [OF grown_Nil, of x d] by simp

lemma grown_toks: "grown is is' \<Longrightarrow> item_toks is' = item_toks is"
proof (induction rule: grown.induct)
  case grown_Nil
  show ?case by simp
next
  case (grown_keep "is" is' i)
  then show ?case by (cases i) simp_all
next
  case (grown_put "is" is' x d)
  then show ?case by simp
qed

lemma grown_headless:
  "grown is is' \<Longrightarrow> headless (pre @ marks is) \<Longrightarrow> headless (pre @ marks is')"
proof (induction arbitrary: pre rule: grown.induct)
  case grown_Nil
  then show ?case by simp
next
  case (grown_keep "is" is' i)
  obtain m where m: "marks (i # is) = m # marks is" "marks (i # is') = m # marks is'"
    by (cases i) simp_all
  from grown_keep.IH [of "pre @ [m]"] grown_keep.prems m show ?case by simp
next
  case (grown_put "is" is' x d)
  from grown_put.prems have "headless (pre @ (d @ marks is))" by simp
  from headless_parts [OF this] have p: "headless pre" and "headless (d @ marks is)"
    by simp_all
  from headless_parts [OF this(2)] have "headless ([] @ marks is)" by simp
  from grown_put.IH [OF this] have "headless (marks is')" by simp
  from headless_markup [OF grown_put.hyps(2) p this] show ?case by simp
qed

lemma subseq_non_blank: "subseq (non_blank s) s"
  by (simp add: non_blank_def)

lemma non_blank_append [simp]: "non_blank (a @ b) = non_blank a @ non_blank b"
  by (simp add: non_blank_def)

lemma non_blank_blanks: "list_all is_space d \<Longrightarrow> non_blank d = []"
  by (auto simp: non_blank_def list_all_iff)

lemma expand_append [simp]: "expand tags (xs @ ys) = expand tags xs @ expand tags ys"
  by (simp add: expand_def render_append)

lemma expand_Chr [simp]: "expand tags (map Chr s) = s"
  by (induction s) (simp_all add: expand_def)

lemma expand_Cons: "expand tags (i # is) = expand tags [i] @ expand tags is"
  using expand_append [of tags "[i]" "is"] by simp

lemma grown_expand:
  "grown is is' \<Longrightarrow> subseq (non_blank (expand tags is)) (expand tags is')"
proof (induction rule: grown.induct)
  case grown_Nil
  show ?case by (simp add: expand_def non_blank_def)
next
  case (grown_keep "is" is' i)
  have e: "expand tags (i # is) = expand tags [i] @ expand tags is"
    "expand tags (i # is') = expand tags [i] @ expand tags is'"
    by (rule expand_Cons)+
  show ?case unfolding e non_blank_append
    by (intro list_emb_append_mono subseq_non_blank grown_keep.IH)
next
  case (grown_put "is" is' x d)
  have "subseq (non_blank (expand tags is)) (x @ expand tags is')"
    by (intro list_emb_append2 grown_put.IH)
  with grown_put.hyps(3) show ?case by (simp add: non_blank_blanks)
qed

subsection \<open>Passes that make the text grow\<close>

lemma grows_refl: "grows s s"
  by (simp add: grows_def grown_refl)

lemma grows_append: "grows a a' \<Longrightarrow> grows b b' \<Longrightarrow> grows (a @ b) (a' @ b')"
  using grown_append [of "map Chr a" "map Chr a'" "map Chr b" "map Chr b'"]
  by (simp add: grows_def)

lemma grows_Cons: "grows s s' \<Longrightarrow> grows (c # s) (c # s')"
  by (simp add: grows_def grown_keep)

lemma grows_markup: "markup x \<Longrightarrow> list_all is_space d \<Longrightarrow> grows d x"
  by (simp add: grows_def grown_markup)

lemma grows_headless: "grows s s' \<Longrightarrow> headless s \<Longrightarrow> headless s'"
  using grown_headless [of "map Chr s" "map Chr s'" "[]"] by (simp add: grows_def)

lemma grows_subseq: "grows s s' \<Longrightarrow> subseq (non_blank s) s'"
  using grown_expand [of "map Chr s" "map Chr s'" "[]"] by (simp add: grows_def)

lemma growingD:
  "growing re f \<Longrightarrow> exec re prev s = Some (e, caps) \<Longrightarrow> grows (take e s) (f caps)"
  unfolding growing_def by blast

lemma render_grows:
  assumes g: "growing re f"
  shows "grows s (render f (scan re prev s))"
proof (induction s arbitrary: prev rule: measure_induct_rule [of length])
  case (less s)
  show ?case
  proof (cases "exec re prev s")
    case None
    show ?thesis
    proof (cases s)
      case Nil
      with None show ?thesis by (simp add: scan_Nil grows_refl)
    next
      case (Cons x xs)
      with None less.IH [of xs "Some x"] show ?thesis
        by (simp add: scan_text_step grows_Cons)
    qed
  next
    case (Some ec)
    then obtain e caps where ex: "exec re prev s = Some (e, caps)" by (cases ec) auto
    note f = growingD [OF g ex]
    show ?thesis
    proof (cases s)
      case Nil
      with ex f show ?thesis by (subst scan.simps) simp
    next
      case (Cons x xs)
      show ?thesis
      proof (cases "e = 0")
        case True
        with ex Cons have sc: "scan re prev s = Match caps # Text x # scan re (Some x) xs"
          by (subst scan.simps) simp
        from less.IH [of xs "Some x"] Cons
        have "grows (x # xs) (x # render f (scan re (Some x) xs))"
          by (simp add: grows_Cons)
        from grows_append [OF f this] True Cons sc show ?thesis by simp
      next
        case False
        with ex Cons have sc: "scan re prev s = Match caps # scan re (Some (s ! (e - 1))) (drop e s)"
          by (intro scan_match_step) simp_all
        have "length (drop e s) < length s" using False Cons by simp
        from grows_append [OF f less.IH [OF this, of "Some (s ! (e - 1))"]] sc
        show ?thesis by simp
      qed
    qed
  qed
qed

lemma replace_all_grows: "growing re f \<Longrightarrow> grows s (replace_all re f s)"
  by (simp add: replace_all_def render_grows)

lemma style_no_underscore:
  "95 \<notin> set (js ''color:#cf222e;font-weight:600'')"
  "95 \<notin> set (js ''color:#1a7f37;font-weight:600'')"
  "95 \<notin> set (js ''color:#953800;font-weight:500'')"
  "95 \<notin> set (js ''color:#0550ae'')"
  "95 \<notin> set (js ''color:#6e7781'')"
  "95 \<notin> set (js ''color:#116329'')"
  "95 \<notin> set (js ''color:#0a3069'')"
  "95 \<notin> set (js ''color:#6e7781;font-style:italic'')"
  "95 \<notin> set (js ''color:#953800'')"
  "95 \<notin> set (js ''color:#cf222e;font-weight:500'')"
  by (simp_all add: js_def)

lemma not_tok_angle: "\<not> tok_char 60" "\<not> tok_char 62" "\<not> tok_char 32" "\<not> tok_char 0"
  by (simp_all add: tok_char_def is_digit_def in_range_def)

lemma markup_open: "95 \<notin> set (js st) \<Longrightarrow> markup (span_open st)"
  by (simp add: markup_def span_open_def js_tag_lits not_tok_angle)

lemma markup_close: "markup span_close"
  by (simp add: markup_def span_close_def js_tag_lits not_tok_angle)

lemma grows_span: "95 \<notin> set (js st) \<Longrightarrow> grows b (span st b)"
proof -
  assume "95 \<notin> set (js st)"
  from grows_markup [OF markup_open [OF this], of "[]"] grows_markup [OF markup_close, of "[]"]
  have "grows [] (span_open st)" "grows [] span_close" by simp_all
  from grows_append [OF this(1) grows_append [OF grows_refl [of b] this(2)]]
  show ?thesis by (simp add: span_def)
qed

lemma growing_comment: "growing re_comment comment_repl"
  unfolding growing_def
proof (intro allI impI)
  fix prev s e caps
  assume ex: "exec re_comment prev s = Some (e, caps)"
  from comment_caps [OF ex] obtain g1 g2 g3 where c: "caps = [g1 @ g2 @ g3, g1, g2, g3]"
    by blast
  with exec_whole [OF ex] have "take e s = g1 @ g2 @ g3" by (simp add: grp_def)
  with c show "grows (take e s) (comment_repl caps)"
    by (simp add: comment_repl_def grp_def grows_span style_no_underscore)
qed

lemma growing_keyword:
  "growing re_keyword (\<lambda>c. span ''color:#cf222e;font-weight:600'' (grp c 1))"
  unfolding growing_def
proof (intro allI impI)
  fix prev s e caps
  assume ex: "exec re_keyword prev s = Some (e, caps)"
  from keyword_caps [OF ex] obtain g1 where c: "caps = [g1, g1]" by blast
  with exec_whole [OF ex] have "take e s = g1" by (simp add: grp_def)
  with c show "grows (take e s) (span ''color:#cf222e;font-weight:600'' (grp caps 1))"
    by (simp add: grp_def grows_span style_no_underscore)
qed

lemma growing_liquid_tag: "growing re_liquid_tag liquid_tag_repl"
  unfolding growing_def
proof (intro allI impI)
  fix prev s e caps
  assume ex: "exec re_liquid_tag prev s = Some (e, caps)"
  from liquid_tag_caps [OF ex] obtain g1 g2 g3 where c: "caps = [g1 @ g2 @ g3, g1, g2, g3]"
    by blast
  with exec_whole [OF ex] have t: "take e s = g1 @ g2 @ g3" by (simp add: grp_def)
  have "grows (g1 @ g2 @ g3)
      (span ''color:#1a7f37;font-weight:600'' g1
       @ replace_all re_keyword (\<lambda>c. span ''color:#cf222e;font-weight:600'' (grp c 1)) g2
       @ span ''color:#1a7f37;font-weight:600'' g3)"
    by (intro grows_append grows_span replace_all_grows growing_keyword style_no_underscore)
  with c t show "grows (take e s) (liquid_tag_repl caps)"
    by (simp add: liquid_tag_repl_def grp_def)
qed

lemma exec_filter:
  assumes "exec re_filter prev s = Some (e, caps)"
  obtains ws g where "take e s = 124 # ws @ g" and "caps = [124 # ws @ g, g]"
    and "list_all is_space ws"
proof -
  from assms obtain ms where m: "rmatch re_filter prev s 0 = Some (ms, e)"
    and c: "caps = take e s # groups s ms"
    by (auto simp: exec_def split: option.splits)
  have bar: "js ''|'' = [124]" by (simp add: js_def)
  from m [unfolded re_filter_def bar] obtain r1 where s1: "s = [124] @ r1"
    and m1: "rmatch [Star Greedy is_space, GOpen, Plus Greedy is_word, GClose]
      (after_lit prev [124]) r1 (0 + length [124 :: jchar]) = Some (ms, e)"
    by (rule lit_result)
  from m1 obtain ws r2 p2 where s2: "r1 = ws @ r2" and sp: "list_all is_space ws"
    and m2: "rmatch [GOpen, Plus Greedy is_word, GClose] p2 r2
      (0 + length [124 :: jchar] + length ws) = Some (ms, e)"
    by (rule star_read)
  from m2 obtain ms1 where ms: "ms = (1 + length ws) # ms1"
    and m3: "rmatch [Plus Greedy is_word, GClose] p2 r2 (1 + length ws) = Some (ms1, e)"
    by (auto elim: gopen_result)
  from m3 obtain g r where s3: "r2 = g @ r"
    and m4: "rmatch [GClose] (after_lit p2 g) r (1 + length ws + length g) = Some (ms1, e)"
    by (rule plus_read)
  from m4 obtain ms2 where ms1: "ms1 = (1 + length ws + length g) # ms2"
    and m5: "rmatch [] (after_lit p2 g) r (1 + length ws + length g) = Some (ms2, e)"
    by (rule gclose_result)
  from m5 have ms2: "ms2 = []" and e: "e = 1 + length ws + length g" by simp_all
  have s: "s = (124 # ws @ g) @ r" using s1 s2 s3 by simp
  have t: "take e s = 124 # ws @ g"
    using s e by (intro take_length_append [of _ _ _ r]) simp_all
  have "groups s ms = [g]" using s ms ms1 ms2 by simp
  with that [OF t _ sp] c t show ?thesis by simp
qed

lemma growing_filter:
  "growing re_filter (\<lambda>c. js ''| '' @ span ''color:#953800;font-weight:500'' (grp c 1))"
  unfolding growing_def
proof (intro allI impI)
  fix prev s e caps
  assume ex: "exec re_filter prev s = Some (e, caps)"
  from ex obtain ws g where t: "take e s = 124 # ws @ g" and c: "caps = [124 # ws @ g, g]"
    and sp: "list_all is_space ws"
    by (rule exec_filter)
  let ?st = "''color:#953800;font-weight:500''"
  have "markup (32 # span_open ?st)"
    using markup_open [OF style_no_underscore(3)]
    by (simp add: markup_def not_tok_angle span_open_def js_tag_lits)
  from grows_markup [OF this sp] grows_markup [OF markup_close, of "[]"]
  have 1: "grows ws (32 # span_open ?st)" and 2: "grows [] span_close" by simp_all
  from grows_Cons [OF grows_append [OF 1 grows_append [OF grows_refl [of g] 2]], of 124]
  have "grows (124 # ws @ g) (124 # 32 # span ?st g)" by (simp add: span_def)
  moreover have "js ''| '' = [124, 32]" by (simp add: js_def)
  ultimately show "grows (take e s) (js ''| '' @ span ?st (grp caps 1))"
    using t c by (simp add: grp_def)
qed

lemma growing_liquid_output: "growing re_liquid_output liquid_output_repl"
  unfolding growing_def
proof (intro allI impI)
  fix prev s e caps
  assume ex: "exec re_liquid_output prev s = Some (e, caps)"
  from liquid_output_caps [OF ex] obtain g1 g2 g3 where c: "caps = [g1 @ g2 @ g3, g1, g2, g3]"
    by blast
  with exec_whole [OF ex] have t: "take e s = g1 @ g2 @ g3" by (simp add: grp_def)
  let ?f = "replace_all re_filter
      (\<lambda>c. js ''| '' @ span ''color:#953800;font-weight:500'' (grp c 1)) g2"
  have "grows g2 ?f" by (intro replace_all_grows growing_filter)
  moreover have "grows [] (span_open ''color:#0550ae'')" "grows [] span_close"
    using grows_markup [OF markup_open [OF style_no_underscore(4)], of "[]"]
      grows_markup [OF markup_close, of "[]"] by simp_all
  ultimately have "grows g2 (span ''color:#0550ae'' ?f)"
    using grows_append [of "[]" "span_open ''color:#0550ae''" g2 "?f @ span_close"]
      grows_append [of g2 ?f "[]" span_close]
    by (simp add: span_def)
  then have "grows (g1 @ g2 @ g3)
      (span ''color:#1a7f37;font-weight:600'' g1 @ span ''color:#0550ae'' ?f
       @ span ''color:#1a7f37;font-weight:600'' g3)"
    by (intro grows_append grows_span style_no_underscore)
  with c t show "grows (take e s) (liquid_output_repl caps)"
    by (simp add: liquid_output_repl_def grp_def)
qed

lemma growing_attr: "growing re_attr attr_repl"
  unfolding growing_def
proof (intro allI impI)
  fix prev s e caps
  assume ex: "exec re_attr prev s = Some (e, caps)"
  from attr_caps [OF ex] obtain g1 g2 g3 g4 g5 where
    c: "caps = [g1 @ g2 @ g3 @ g4 @ g5, g1, g2, g3, g4, g5]"
    by blast
  with exec_whole [OF ex] have t: "take e s = g1 @ g2 @ (g3 @ g4 @ g5)" by (simp add: grp_def)
  have "grows (g1 @ g2 @ (g3 @ g4 @ g5))
      (span ''color:#116329'' g1 @ g2 @ span ''color:#0a3069'' (g3 @ g4 @ g5))"
    by (intro grows_append grows_span grows_refl style_no_underscore)
  with c t show "grows (take e s) (attr_repl caps)"
    by (simp add: attr_repl_def grp_def)
qed

lemma growing_html_tag: "growing re_html_tag html_tag_repl"
  unfolding growing_def
proof (intro allI impI)
  fix prev s e caps
  assume ex: "exec re_html_tag prev s = Some (e, caps)"
  from html_tag_caps [OF ex] obtain g1 g2 g3 g4 where
    c: "caps = [g1 @ g2 @ g3 @ g4, g1, g2, g3, g4]"
    by blast
  with exec_whole [OF ex] have t: "take e s = g1 @ g2 @ g3 @ g4" by (simp add: grp_def)
  have "grows (g1 @ g2 @ g3 @ g4)
      (span ''color:#6e7781'' g1 @ span ''color:#0550ae'' g2 @ replace_all re_attr attr_repl g3
       @ span ''color:#6e7781'' g4)"
    by (intro grows_append grows_span replace_all_grows growing_attr style_no_underscore)
  with c t show "grows (take e s) (html_tag_repl caps)"
    by (simp add: html_tag_repl_def grp_def)
qed

lemma subseq_non_blank_trans:
  assumes "subseq (non_blank a) b" and "subseq (non_blank b) c"
  shows "subseq (non_blank a) c"
proof -
  from subseq_filter [OF assms(1), of "\<lambda>c. \<not> is_space c"]
  have "subseq (non_blank a) (non_blank b)" by (simp add: non_blank_def)
  from this assms(2) show ?thesis by (rule subseq_order.trans)
qed

lemma structural_headless: "headless s \<Longrightarrow> headless (structural s)"
  unfolding structural_def
  by (intro grows_headless [OF replace_all_grows] growing_liquid_tag growing_liquid_output
      growing_html_tag growing_comment)

lemma structural_subseq: "subseq (non_blank s) (structural s)"
proof -
  let ?a = "replace_all re_liquid_tag liquid_tag_repl s"
  let ?b = "replace_all re_liquid_output liquid_output_repl ?a"
  let ?c = "replace_all re_html_tag html_tag_repl ?b"
  have "subseq (non_blank s) ?a" "subseq (non_blank ?a) ?b" "subseq (non_blank ?b) ?c"
    "subseq (non_blank ?c) (structural s)"
    unfolding structural_def
    by (intro grows_subseq replace_all_grows growing_liquid_tag growing_liquid_output
        growing_html_tag growing_comment)+
  then show ?thesis by (blast intro: subseq_non_blank_trans)
qed

lemma escape_headless_pre:
  "headless (pre @ raw) \<Longrightarrow> headless (pre @ concat (map escape_char raw))"
proof (induction raw arbitrary: pre)
  case Nil
  then show ?case by simp
next
  case (Cons c raw)
  show ?case
  proof (cases "c = 38 \<or> c = 60 \<or> c = 62")
    case True
    then have m: "markup (escape_char c)"
      by (auto simp: markup_def escape_char_def js_simps tok_char_def is_digit_def in_range_def)
    from headless_parts [OF Cons.prems] have p: "headless pre" and "headless ([c] @ raw)"
      by simp_all
    from headless_parts [OF this(2)] have "headless ([] @ raw)" by simp
    from Cons.IH [OF this] have "headless (concat (map escape_char raw))" by simp
    from headless_markup [OF m p this] show ?thesis by simp
  next
    case False
    then have "escape_char c = [c]" by (simp add: escape_char_def)
    with Cons.IH [of "pre @ [c]"] Cons.prems show ?thesis by simp
  qed
qed

lemma escape_headless: "headless raw \<Longrightarrow> headless (escape_html raw)"
  using escape_headless_pre [of "[]" raw] by (simp add: escape_html_chars)

section \<open>The placeholders of a masked text\<close>

lemma placeholder_start: "\<exists>r. placeholder n = 95 # 95 # r"
  by (simp add: placeholder_def js_placeholder_lits)

text \<open>
  A text that no placeholder begins, read at the start of a masked text, is read from
  characters of the text alone.
\<close>

lemma flatten_prefix_marks:
  "prefix q (flatten is) \<Longrightarrow>
     \<forall>q'. suffix q' q \<longrightarrow> q' \<noteq> [] \<longrightarrow> hd q' \<noteq> 95 \<or> (tl q' \<noteq> [] \<and> hd (tl q') \<noteq> 95) \<Longrightarrow>
     prefix q (marks is)"
proof (induction "is" arbitrary: q)
  case Nil
  then show ?case by simp
next
  case (Cons i "is")
  show ?case
  proof (cases q)
    case Nil
    then show ?thesis by simp
  next
    case q: (Cons c q')
    show ?thesis
    proof (cases i)
      case (Chr x)
      with Cons.prems(1) q have c: "c = x" and p: "prefix q' (flatten is)" by simp_all
      have "\<forall>q''. suffix q'' q' \<longrightarrow> q'' \<noteq> [] \<longrightarrow> hd q'' \<noteq> 95 \<or> (tl q'' \<noteq> [] \<and> hd (tl q'') \<noteq> 95)"
        using Cons.prems(2) q by (simp add: suffix_Cons)
      from Cons.IH [OF p this] c q Chr show ?thesis by simp
    next
      case (Tok n)
      from placeholder_start [of n] obtain r where r: "placeholder n = 95 # 95 # r" by blast
      with Cons.prems(1) q Tok have c: "c = 95" and p: "prefix q' (95 # r @ flatten is)"
        by simp_all
      from Cons.prems(2) q c have "q' \<noteq> [] \<and> hd q' \<noteq> 95" by auto
      with p show ?thesis by (cases q') simp_all
    qed
  qed
qed

lemma exec_placeholder_head:
  assumes "exec re_placeholder prev s = Some (e, caps)"
  shows "\<exists>d r. is_digit d \<and> s = js ''__HL_TAG_'' @ d # r"
proof -
  from assms obtain ms where m: "rmatch re_placeholder prev s 0 = Some (ms, e)"
    by (auto simp: exec_def split: option.splits)
  from m [unfolded re_placeholder_def] obtain r1 where s1: "s = js ''__HL_TAG_'' @ r1"
    and m1: "rmatch [GOpen, Plus Greedy is_digit, GClose, Lit (js ''__'')]
      (after_lit prev (js ''__HL_TAG_'')) r1 (0 + length (js ''__HL_TAG_'')) = Some (ms, e)"
    by (rule lit_result)
  from m1 obtain ms1 where
    m2: "rmatch [Plus Greedy is_digit, GClose, Lit (js ''__'')]
      (after_lit prev (js ''__HL_TAG_'')) r1 (0 + length (js ''__HL_TAG_'')) = Some (ms1, e)"
    by (rule gopen_result)
  from m2 obtain ds r2 where "r1 = ds @ r2" "list_all is_digit ds" "ds \<noteq> []"
    by (rule plus_read)
  then obtain d ds' where "r1 = d # ds' @ r2" "is_digit d" by (cases ds) auto
  with s1 show ?thesis by blast
qed

lemma exec_placeholder_Chr:
  assumes "headless (marks (Chr c # is))"
  shows "exec re_placeholder prev (flatten (Chr c # is)) = None"
proof (rule ccontr)
  assume "exec re_placeholder prev (flatten (Chr c # is)) \<noteq> None"
  then obtain e caps where "exec re_placeholder prev (flatten (Chr c # is)) = Some (e, caps)"
    by auto
  from exec_placeholder_head [OF this] obtain d r where d: "is_digit d"
    and s: "flatten (Chr c # is) = js ''__HL_TAG_'' @ d # r"
    by blast
  let ?q = "[95, 72, 76, 95, 84, 65, 71, 95, d] :: jstring"
  from s have c: "c = 95" and "flatten is = ?q @ r"
    by (simp_all add: js_placeholder_lits)
  then have p: "prefix ?q (flatten is)" by simp
  from d have "d \<noteq> 95" using not_digit_underscore by auto
  then have "\<forall>q'. suffix q' ?q \<longrightarrow> q' \<noteq> [] \<longrightarrow> hd q' \<noteq> 95 \<or> (tl q' \<noteq> [] \<and> hd (tl q') \<noteq> 95)"
    by (auto simp: suffix_Cons)
  from flatten_prefix_marks [OF p this] c
  have "prefix (js ''__HL_TAG_'' @ [d]) (marks (Chr c # is))"
    by (simp add: js_placeholder_lits)
  with assms d show False
    unfolding headless_def using prefix_imp_sublist by blast
qed

lemma scan_placeholder_items:
  "headless (marks is) \<Longrightarrow> scan re_placeholder prev (flatten is) = map item_piece is"
proof (induction "is" arbitrary: prev)
  case Nil
  show ?case by (simp add: scan_Nil exec_placeholder_Nil)
next
  case (Cons i "is")
  obtain m where "marks (i # is) = [m] @ marks is" by (cases i) simp_all
  with Cons.prems headless_parts [of "[m]" "marks is"] have h: "headless (marks is)" by simp
  show ?case
  proof (cases i)
    case (Chr c)
    with exec_placeholder_Chr [of c "is" prev] Cons.prems Cons.IH [OF h, of "Some c"]
    show ?thesis by (simp add: scan_text_step)
  next
    case (Tok n)
    let ?s = "placeholder n @ flatten is"
    have ne: "?s \<noteq> []" "0 < length (placeholder n)"
      using placeholder_not_Nil [of n] by simp_all
    from scan_match_step [OF exec_placeholder [of prev n "flatten is"] ne(2) ne(1)]
    have "scan re_placeholder prev ?s
        = Match [placeholder n, show_nat n]
          # scan re_placeholder (Some (?s ! (length (placeholder n) - 1))) (flatten is)"
      by simp
    with Cons.IH [OF h] Tok show ?thesis by simp
  qed
qed

lemma headless_no_placeholder: "headless s \<Longrightarrow> no_match re_placeholder s"
proof -
  assume "headless s"
  then have "scan re_placeholder None (flatten (map Chr s)) = map item_piece (map Chr s)"
    by (intro scan_placeholder_items) simp
  then have "match_texts (scan re_placeholder None s) = map placeholder (item_toks (map Chr s))"
    by (simp only: flatten_Chr match_texts_item_pieces)
  then show ?thesis by (simp add: no_match_def)
qed

text \<open>Masking a text without the beginning of a placeholder.\<close>

lemma marks_mask_items: "marks (mask_items n ps) = render (\<lambda>_. [0]) ps"
proof (induction ps arbitrary: n)
  case Nil
  show ?case by simp
next
  case (Cons p ps)
  then show ?case by (cases p) simp_all
qed

lemma render_mark_headless:
  "headless (pre @ s) \<Longrightarrow> headless (pre @ render (\<lambda>_. [0]) (scan re prev s))"
proof (induction s arbitrary: pre prev rule: measure_induct_rule [of length])
  case (less s)
  have mk: "markup [0]" by (simp add: markup_def not_tok_angle)
  show ?case
  proof (cases "exec re prev s")
    case None
    show ?thesis
    proof (cases s)
      case Nil
      with None less.prems show ?thesis by (simp add: scan_Nil)
    next
      case (Cons x xs)
      with None less.IH [of xs "pre @ [x]" "Some x"] less.prems show ?thesis
        by (simp add: scan_text_step)
    qed
  next
    case (Some ec)
    then obtain e caps where ex: "exec re prev s = Some (e, caps)" by (cases ec) auto
    from headless_parts [OF less.prems] have p: "headless pre" and hs: "headless s" by simp_all
    show ?thesis
    proof (cases s)
      case Nil
      with ex headless_markup [OF mk p, of "[]"] show ?thesis
        by (subst scan.simps) (simp add: headless_def)
    next
      case (Cons x xs)
      show ?thesis
      proof (cases "e = 0")
        case True
        with ex Cons have sc: "scan re prev s = Match caps # Text x # scan re (Some x) xs"
          by (subst scan.simps) simp
        from less.IH [of xs "[x]" "Some x"] hs Cons
        have "headless (x # render (\<lambda>_. [0]) (scan re (Some x) xs))" by simp
        from headless_markup [OF mk p this] sc show ?thesis by simp
      next
        case False
        with ex Cons have sc: "scan re prev s = Match caps # scan re (Some (s ! (e - 1))) (drop e s)"
          by (intro scan_match_step) simp_all
        have l: "length (drop e s) < length s" using False Cons by simp
        from hs have "headless (take e s @ drop e s)" by simp
        from headless_parts [OF this] have "headless ([] @ drop e s)" by simp
        from less.IH [OF l this, of "Some (s ! (e - 1))"]
        have "headless (render (\<lambda>_. [0]) (scan re (Some (s ! (e - 1))) (drop e s)))" by simp
        from headless_markup [OF mk p this] sc show ?thesis by simp
      qed
    qed
  qed
qed

lemma mask_items_headless: "headless t \<Longrightarrow> headless (marks (mask_items n (scan re prev t)))"
  using render_mark_headless [of "[]" t re prev] by (simp add: marks_mask_items)

lemma mask_items_eq:
  "mask t = (flatten (mask_items 0 (scan re_markup None t)), match_texts (scan re_markup None t))"
  by (simp add: mask_def render_st_mask)

lemma masked_tokens:
  assumes "headless t"
  shows "scan re_placeholder None (fst (mask t))
     = map item_piece (mask_items 0 (scan re_markup None t))"
  using scan_placeholder_items [OF mask_items_headless [OF assms]]
  by (simp add: mask_items_eq)

lemma expand_mask_items:
  "expand (match_texts (scan re_markup None t)) (mask_items 0 (scan re_markup None t)) = t"
proof -
  let ?ps = "scan re_markup None t"
  have "render (unmask_repl (match_texts ?ps))
      (map item_piece (mask_items (length ([] :: jstring list)) ?ps))
      = render (\<lambda>c. grp c 0) ?ps"
    by (rule render_unmask_items) simp
  then show ?thesis by (simp add: expand_def scan_whole)
qed

lemma mask_roundtrip:
  assumes "headless t"
  shows "match_texts (scan re_placeholder None (fst (mask t)))
           = map placeholder [0 ..< length (snd (mask t))]"
    and "unmask (snd (mask t)) (fst (mask t)) = t"
proof -
  let ?ps = "scan re_markup None t"
  show "match_texts (scan re_placeholder None (fst (mask t)))
      = map placeholder [0 ..< length (snd (mask t))]"
    using masked_tokens [OF assms]
    by (simp add: match_texts_item_pieces item_toks_mask mask_items_eq)
  show "unmask (snd (mask t)) (fst (mask t)) = t"
    using masked_tokens [OF assms] expand_mask_items [of t]
    by (simp add: unmask_def replace_all_def mask_items_eq expand_def)
qed

text \<open>Unmasking a masked text without the beginning of a placeholder.\<close>

lemma match_texts_sublist: "e \<in> set (match_texts (scan re prev s)) \<Longrightarrow> sublist e s"
proof (induction s arbitrary: prev rule: measure_induct_rule [of length])
  case (less s)
  show ?case
  proof (cases "exec re prev s")
    case None
    show ?thesis
    proof (cases s)
      case Nil
      with None less.prems show ?thesis by (simp add: scan_Nil)
    next
      case (Cons c cs)
      with None less.prems have "e \<in> set (match_texts (scan re (Some c) cs))"
        by (simp add: scan_text_step)
      from less.IH [OF _ this] Cons show ?thesis by (simp add: sublist_Cons_right)
    qed
  next
    case (Some ec)
    then obtain n caps where ex: "exec re prev s = Some (n, caps)" by (cases ec) auto
    from exec_whole [OF ex] have w: "sublist (grp caps 0) s" by simp
    show ?thesis
    proof (cases s)
      case Nil
      with ex w less.prems show ?thesis by (subst (asm) scan.simps) simp
    next
      case (Cons c cs)
      show ?thesis
      proof (cases "n = 0")
        case True
        with ex Cons have "scan re prev s = Match caps # Text c # scan re (Some c) cs"
          by (subst scan.simps) simp
        with less.prems consider "e = grp caps 0" | "e \<in> set (match_texts (scan re (Some c) cs))"
          by auto
        then show ?thesis
        proof cases
          case 1
          with w show ?thesis by simp
        next
          case 2
          from less.IH [OF _ this] Cons show ?thesis by (simp add: sublist_Cons_right)
        qed
      next
        case False
        with ex Cons have sc: "scan re prev s = Match caps # scan re (Some (s ! (n - 1))) (drop n s)"
          by (intro scan_match_step) simp_all
        with less.prems consider "e = grp caps 0"
          | "e \<in> set (match_texts (scan re (Some (s ! (n - 1))) (drop n s)))"
          by auto
        then show ?thesis
        proof cases
          case 1
          with w show ?thesis by simp
        next
          case 2
          have "length (drop n s) < length s" using False Cons by simp
          from less.IH [OF this 2] have "sublist e (drop n s)" .
          then show ?thesis
            by (rule sublist_order.order.trans) (rule sublist_drop)
        qed
      qed
    qed
  qed
qed

lemma headless_sublist: "sublist e s \<Longrightarrow> headless s \<Longrightarrow> headless e"
  unfolding headless_def using sublist_order.order.trans by blast

lemma undefined_sealed:
  "js ''undefined'' \<noteq> []" "\<not> tok_char (hd (js ''undefined''))"
  "\<not> tok_char (last (js ''undefined''))" "headless (js ''undefined'')"
  by (simp_all add: js_def tok_char_def is_digit_def in_range_def no_underscore_headless)

lemma expand_headless:
  assumes tags: "\<forall>e \<in> set tags. prefix [60] e \<and> suffix [62] e \<and> headless e"
  shows "headless (pre @ marks is) \<Longrightarrow> headless (pre @ expand tags is)"
proof (induction "is" arbitrary: pre)
  case Nil
  then show ?case by (simp add: expand_def)
next
  case (Cons i "is")
  show ?case
  proof (cases i)
    case (Chr c)
    with Cons.IH [of "pre @ [c]"] Cons.prems show ?thesis by (simp add: expand_def)
  next
    case (Tok k)
    let ?x = "to_string (array_get tags k)"
    have x: "?x \<noteq> [] \<and> \<not> tok_char (hd ?x) \<and> \<not> tok_char (last ?x) \<and> headless ?x"
    proof (cases "k < length tags")
      case True
      then have "tags ! k \<in> set tags" by simp
      with tags have t: "prefix [60] (tags ! k)" "suffix [62] (tags ! k)" "headless (tags ! k)"
        by blast+
      from t(1) obtain r where "tags ! k = [60] @ r" by (auto simp: prefix_def)
      then have "tags ! k \<noteq> []" "hd (tags ! k) = 60" by simp_all
      moreover from t(2) obtain r' where "tags ! k = r' @ [62]" by (auto simp: suffix_def)
      then have "last (tags ! k) = 62" by simp
      ultimately show ?thesis
        using True t(3) by (simp add: to_string_def array_get_def not_tok_angle)
    next
      case False
      with undefined_sealed show ?thesis by (simp add: to_string_def array_get_def)
    qed
    from Cons.prems Tok have "headless (pre @ ([0] @ marks is))" by simp
    from headless_parts [OF this] have p: "headless pre" and "headless ([0] @ marks is)"
      by simp_all
    from headless_parts [OF this(2)] have "headless ([] @ marks is)" by simp
    from Cons.IH [OF this] have "headless (expand tags is)" by simp
    from headless_seal [OF _ _ _ _ p this, of ?x] x
    have "headless (pre @ ?x @ expand tags is)" by simp
    with Tok show ?thesis
      by (simp add: expand_def unmask_repl_def grp_def parse_int_show_nat)
  qed
qed

lemma unmask_table: "map (unmask tags) (map placeholder [0 ..< length tags]) = tags"
proof -
  have "map (unmask tags) (map placeholder [0 ..< length tags])
      = map (\<lambda>i. tags ! i) [0 ..< length tags]"
    by (simp add: unmask_placeholder array_get_def to_string_def)
  then show ?thesis by (simp add: map_nth)
qed

section \<open>The matches of the content passes\<close>

lemma js_content_lits:
  \<open>js ''"'' = [34]\<close> "js '':'' = [58]" "js ''.'' = [46]"
  "js ''true'' = [116, 114, 117, 101]" "js ''false'' = [102, 97, 108, 115, 101]"
  "js ''nil'' = [110, 105, 108]" "js ''null'' = [110, 117, 108, 108]"
  by (simp_all add: js_def)

lemma nil_result: "rmatch [] prev s k = Some (ms, e) \<Longrightarrow> ms = [] \<and> e = k"
  by simp

lemma exec_string:
  assumes "exec re_string prev s = Some (e, caps)"
  obtains b r where "s = 34 # b @ 34 # r" and "e = length b + 2"
    and "caps = [34 # b @ [34], b]"
proof -
  from assms obtain ms where m: "rmatch re_string prev s 0 = Some (ms, e)"
    and c: "caps = take e s # groups s ms"
    by (auto simp: exec_def split: option.splits)
  from m [unfolded re_string_def js_content_lits] obtain r1 where s1: "s = [34] @ r1"
    and m1: "rmatch [GOpen, Star Greedy not_quote, GClose, Lit [34]] (after_lit prev [34]) r1
      (0 + length [34 :: jchar]) = Some (ms, e)"
    by (rule lit_result)
  from m1 obtain ms1 where ms: "ms = 1 # ms1"
    and m2: "rmatch [Star Greedy not_quote, GClose, Lit [34]] (after_lit prev [34]) r1 1
      = Some (ms1, e)"
    by (auto elim: gopen_result)
  from m2 obtain b r2 p2 where s2: "r1 = b @ r2"
    and m3: "rmatch [GClose, Lit [34]] p2 r2 (1 + length b) = Some (ms1, e)"
    by (rule star_read)
  from m3 obtain ms2 where ms1: "ms1 = (1 + length b) # ms2"
    and m4: "rmatch [Lit [34]] p2 r2 (1 + length b) = Some (ms2, e)"
    by (rule gclose_result)
  from m4 obtain r where s3: "r2 = [34] @ r"
    and m5: "rmatch [] (after_lit p2 [34]) r (1 + length b + length [34 :: jchar]) = Some (ms2, e)"
    by (rule lit_result)
  from m5 have ms2: "ms2 = []" and e: "e = length b + 2" by simp_all
  have s: "s = 34 # b @ 34 # r" using s1 s2 s3 by simp
  have "take e s = 34 # b @ [34]" using s e by (intro take_length_append [of _ _ _ r]) simp_all
  moreover have "groups s ms = [b]" using s ms ms1 ms2 by simp
  ultimately show ?thesis using that [OF s e] c by simp
qed

lemma exec_json_key:
  assumes "exec re_json_key prev s = Some (e, caps)"
  obtains g ws r where "s = 34 # g @ 34 # ws @ 58 # r" and "e = length g + length ws + 3"
    and "caps = [34 # g @ 34 # ws @ [58], g]" and "list_all is_space ws"
proof -
  from assms obtain ms where m: "rmatch re_json_key prev s 0 = Some (ms, e)"
    and c: "caps = take e s # groups s ms"
    by (auto simp: exec_def split: option.splits)
  from m [unfolded re_json_key_def js_content_lits] obtain r1 where s1: "s = [34] @ r1"
    and m1: "rmatch [GOpen, Plus Lazy is_word_hyphen, GClose, Lit [34], Star Greedy is_space,
      Lit [58]] (after_lit prev [34]) r1 (0 + length [34 :: jchar]) = Some (ms, e)"
    by (rule lit_result)
  from m1 obtain ms1 where ms: "ms = 1 # ms1"
    and m2: "rmatch [Plus Lazy is_word_hyphen, GClose, Lit [34], Star Greedy is_space, Lit [58]]
      (after_lit prev [34]) r1 1 = Some (ms1, e)"
    by (auto elim: gopen_result)
  from m2 obtain g r2 where s2: "r1 = g @ r2"
    and m3: "rmatch [GClose, Lit [34], Star Greedy is_space, Lit [58]]
      (after_lit (after_lit prev [34]) g) r2 (1 + length g) = Some (ms1, e)"
    by (rule plus_read)
  from m3 obtain ms2 where ms1: "ms1 = (1 + length g) # ms2"
    and m4: "rmatch [Lit [34], Star Greedy is_space, Lit [58]]
      (after_lit (after_lit prev [34]) g) r2 (1 + length g) = Some (ms2, e)"
    by (rule gclose_result)
  from m4 obtain r3 where s3: "r2 = [34] @ r3"
    and m5: "rmatch [Star Greedy is_space, Lit [58]]
      (after_lit (after_lit (after_lit prev [34]) g) [34]) r3
      (1 + length g + length [34 :: jchar]) = Some (ms2, e)"
    by (rule lit_result)
  from m5 obtain ws r4 p4 where s4: "r3 = ws @ r4" and sp: "list_all is_space ws"
    and m6: "rmatch [Lit [58]] p4 r4 (1 + length g + length [34 :: jchar] + length ws)
      = Some (ms2, e)"
    by (rule star_read)
  from m6 obtain r where s5: "r4 = [58] @ r"
    and m7: "rmatch [] (after_lit p4 [58]) r
      (1 + length g + length [34 :: jchar] + length ws + length [58 :: jchar]) = Some (ms2, e)"
    by (rule lit_result)
  from m7 have ms2: "ms2 = []" and e: "e = length g + length ws + 3" by simp_all
  have s: "s = 34 # g @ 34 # ws @ 58 # r" using s1 s2 s3 s4 s5 by simp
  have "take e s = 34 # g @ 34 # ws @ [58]"
    using s e by (intro take_length_append [of _ _ _ r]) simp_all
  moreover have "groups s ms = [g]" using s ms ms1 ms2 by simp
  ultimately show ?thesis using that [OF s e _ sp] c by simp
qed

lemma exec_number:
  assumes "exec re_number prev s = Some (e, caps)"
  obtains w r where "s = w @ r" and "e = length w" and "w \<noteq> []" and "caps = [w, w]"
    and "list_all (\<lambda>c. is_digit c \<or> c = 46) w"
proof -
  from assms obtain ms where m: "rmatch re_number prev s 0 = Some (ms, e)"
    and c: "caps = take e s # groups s ms"
    by (auto simp: exec_def split: option.splits)
  from wordb_result(2) [OF m [unfolded re_number_def js_content_lits]]
  have m1: "rmatch [GOpen, Plus Greedy is_digit, Opt [46], Star Greedy is_digit, GClose, WordB]
      prev s 0 = Some (ms, e)" .
  from m1 obtain ms1 where ms: "ms = 0 # ms1"
    and m2: "rmatch [Plus Greedy is_digit, Opt [46], Star Greedy is_digit, GClose, WordB]
      prev s 0 = Some (ms1, e)"
    by (rule gopen_result)
  from m2 obtain d1 r1 where s1: "s = d1 @ r1" and p1: "list_all is_digit d1" and n1: "d1 \<noteq> []"
    and m3: "rmatch [Opt [46], Star Greedy is_digit, GClose, WordB] (after_lit prev d1) r1
      (0 + length d1) = Some (ms1, e)"
    by (rule plus_read)
  from m3 obtain dot r2 where s2: "r1 = dot @ r2" and po: "dot = [46] \<or> dot = []"
    and m4: "rmatch [Star Greedy is_digit, GClose, WordB] (after_lit (after_lit prev d1) dot) r2
      (0 + length d1 + length dot) = Some (ms1, e)"
    by (rule opt_read)
  from m4 obtain d2 r p3 where s3: "r2 = d2 @ r" and p2: "list_all is_digit d2"
    and m5: "rmatch [GClose, WordB] p3 r (0 + length d1 + length dot + length d2) = Some (ms1, e)"
    by (rule star_read)
  from m5 obtain ms2 where ms1: "ms1 = (length d1 + length dot + length d2) # ms2"
    and m6: "rmatch [WordB] p3 r (0 + length d1 + length dot + length d2) = Some (ms2, e)"
    by (auto elim: gclose_result)
  from wordb_result(2) [OF m6] have ms2: "ms2 = []" and e: "e = length d1 + length dot + length d2"
    by simp_all
  let ?w = "d1 @ dot @ d2"
  have s: "s = ?w @ r" using s1 s2 s3 by simp
  have t: "take e s = ?w" using s e by (intro take_length_append [of _ _ _ r]) simp_all
  have "groups s ms = [?w]" using ms ms1 ms2 t e by simp
  moreover have "list_all (\<lambda>c. is_digit c \<or> c = 46) ?w"
    using p1 p2 po by (auto simp: list_all_iff)
  ultimately show ?thesis using that [of ?w r] s e n1 c t by simp
qed

lemma exec_boolean:
  assumes "exec re_boolean prev s = Some (e, caps)"
  obtains w r where "s = w @ r" and "e = length w" and "caps = [w, w]"
    and "w \<in> {js ''true'', js ''false'', js ''nil'', js ''null''}"
proof -
  from assms obtain ms where m: "rmatch re_boolean prev s 0 = Some (ms, e)"
    and c: "caps = take e s # groups s ms"
    by (auto simp: exec_def split: option.splits)
  from wordb_result(2) [OF m [unfolded re_boolean_def]] obtain ms1 where ms: "ms = 0 # ms1"
    and m2: "rmatch [Alt [js ''true'', js ''false'', js ''nil'', js ''null''], GClose, WordB]
      prev s 0 = Some (ms1, e)"
    by (rule gopen_result)
  from m2 obtain w r where w: "w \<in> set [js ''true'', js ''false'', js ''nil'', js ''null'']"
    and s: "s = w @ r"
    and m3: "rmatch [GClose, WordB] (after_lit prev w) r (0 + length w) = Some (ms1, e)"
    by (rule alt_read)
  from m3 obtain ms2 where ms1: "ms1 = length w # ms2"
    and m4: "rmatch [WordB] (after_lit prev w) r (0 + length w) = Some (ms2, e)"
    by (auto elim: gclose_result)
  from wordb_result(2) [OF m4] have ms2: "ms2 = []" and e: "e = length w" by simp_all
  have t: "take e s = w" using s e by simp
  have "groups s ms = [w]" using ms ms1 ms2 t e by simp
  with that [OF s e] c t w show ?thesis by simp
qed

section \<open>The number pass in its context\<close>

text \<open>A match does not read beyond a character that none of the atoms accepts.\<close>

lemma prefix_stop:
  "c \<notin> set l \<Longrightarrow> prefix l (x @ c # b) \<longleftrightarrow> prefix l x"
proof
  assume c: "c \<notin> set l" and p: "prefix l (x @ c # b)"
  show "prefix l x"
  proof (cases "length l \<le> length x")
    case True
    with p show ?thesis by (auto simp: prefix_def append_eq_append_conv2 dest: arg_cong [of _ _ length])
  next
    case False
    from p obtain r where r: "x @ c # b = l @ r" by (auto simp: prefix_def)
    then have "(x @ c # b) ! length x = (l @ r) ! length x" by simp
    with False have "c = l ! length x" by (simp add: nth_append)
    with False c show ?thesis by (metis not_le nth_mem)
  qed
next
  assume "prefix l x"
  then show "prefix l (x @ c # b)" by (rule prefix_prefix)
qed

lemma lit_local:
  assumes c: "c \<notin> set l"
    and ih: "\<And>prev x k. rmatch as prev (x @ c # b) k = rmatch as prev (x @ [c]) k"
  shows "rmatch (Lit l # as) prev (x @ c # b) k = rmatch (Lit l # as) prev (x @ [c]) k"
proof (cases "prefix l x")
  case True
  then obtain x' where x: "x = l @ x'" by (auto simp: prefix_def)
  have "rmatch (Lit l # as) prev (l @ x' @ c # b) k
      = rmatch as (after_lit prev l) (x' @ c # b) (k + length l)"
    by (rule rmatch_Lit_append)
  moreover have "rmatch (Lit l # as) prev (l @ x' @ [c]) k
      = rmatch as (after_lit prev l) (x' @ [c]) (k + length l)"
    by (rule rmatch_Lit_append)
  ultimately show ?thesis using ih [of "after_lit prev l" x' "k + length l"] x by simp
next
  case False
  with prefix_stop [OF c, of x b] prefix_stop [OF c, of x "[]"]
  have "\<not> prefix l (x @ c # b)" "\<not> prefix l (x @ [c])" by simp_all
  then show ?thesis by (simp del: prefix_snoc)
qed

lemma take_stop: "e \<le> Suc (length x) \<Longrightarrow> take e (x @ c # b) = take e (x @ [c])"
  by (cases "e - length x") auto

lemma nth_last_append: "w \<noteq> [] \<Longrightarrow> (w @ r) ! (length w - 1) = last w"
  by (simp add: nth_append last_conv_nth)

lemma opt_as_lit:
  "rmatch (Opt l # as) prev s k =
     (case rmatch (Lit l # as) prev s k of Some r \<Rightarrow> Some r | None \<Rightarrow> rmatch as prev s k)"
  by simp

lemma alt_as_lit:
  "rmatch (Alt (l # ls) # as) prev s k =
     (case rmatch (Lit l # as) prev s k of Some r \<Rightarrow> Some r
      | None \<Rightarrow> rmatch (Alt ls # as) prev s k)"
  by simp

lemma star_local:
  assumes c: "\<not> p c"
    and ih: "\<And>prev x k. rmatch as prev (x @ c # b) k = rmatch as prev (x @ [c]) k"
  shows "rmatch (Star q p # as) prev (x @ c # b) k = rmatch (Star q p # as) prev (x @ [c]) k"
proof (induction x arbitrary: prev k)
  case Nil
  from ih [of prev "[]" k] c show ?case
    by (cases q) (simp_all add: rmatch.simps(3,4) split: option.splits)
next
  case (Cons d x)
  from ih [of prev "d # x" k] Cons [of "Some d" "Suc k"] show ?case
    by (cases q) (simp_all add: rmatch.simps(3,4) split: option.splits)
qed

lemma alt_local:
  assumes c: "\<forall>l \<in> set ls. c \<notin> set l"
    and ih: "\<And>prev x k. rmatch as prev (x @ c # b) k = rmatch as prev (x @ [c]) k"
  shows "rmatch (Alt ls # as) prev (x @ c # b) k = rmatch (Alt ls # as) prev (x @ [c]) k"
  using c
proof (induction ls)
  case Nil
  show ?case by simp
next
  case (Cons l ls)
  from Cons.prems have "c \<notin> set l" by simp
  note 1 = lit_local [OF this ih, of prev x k]
  from Cons have 2: "rmatch (Alt ls # as) prev (x @ c # b) k = rmatch (Alt ls # as) prev (x @ [c]) k"
    by simp
  show ?case by (simp only: alt_as_lit 1 2)
qed

lemma rmatch_local:
  "\<forall>a \<in> set as. stops c a \<Longrightarrow> rmatch as prev (x @ c # b) k = rmatch as prev (x @ [c]) k"
proof (induction as arbitrary: prev x k)
  case Nil
  show ?case by simp
next
  case (Cons a as)
  from Cons.prems have ih: "rmatch as prev (x @ c # b) k = rmatch as prev (x @ [c]) k" for prev x k
    by (intro Cons.IH) simp
  from Cons.prems have st: "stops c a" by simp
  show ?case
  proof (cases a)
    case (Lit l)
    with st lit_local [OF _ ih, of l prev x k] show ?thesis by simp
  next
    case (Star q p)
    with st star_local [OF _ ih] show ?thesis by simp
  next
    case (Plus q p)
    with st star_local [OF _ ih, of p q] show ?thesis
      by (cases x) (simp_all add: rmatch.simps(5))
  next
    case (Opt l)
    with st have "c \<notin> set l" by simp
    from lit_local [OF this ih, of prev x k] ih [of prev x k] Opt show ?thesis
      by (simp only: opt_as_lit)
  next
    case (Alt ls)
    with st alt_local [OF _ ih] show ?thesis by simp
  next
    case WordB
    have "at_boundary prev (x @ c # b) = at_boundary prev (x @ [c])"
      by (cases x) (simp_all add: at_boundary_def)
    with WordB ih [of prev x k] show ?thesis by simp
  next
    case GOpen
    with ih [of prev x k] show ?thesis by simp
  next
    case GClose
    with ih [of prev x k] show ?thesis by simp
  qed
qed

text \<open>The number pattern stops at every character that is neither a digit nor a dot.\<close>

lemma exec_number_local:
  assumes "\<not> is_digit c" and "c \<noteq> 46"
  shows "exec re_number prev (x @ c # b) = exec re_number prev (x @ [c])"
proof -
  have st: "\<forall>a \<in> set re_number. stops c a"
    using assms by (simp add: re_number_def js_content_lits)
  note eq = rmatch_local [OF st, of prev x b 0]
  show ?thesis
  proof (cases "exec re_number prev (x @ [c])")
    case None
    then have "rmatch re_number prev (x @ [c]) 0 = None"
      by (auto simp: exec_def split: option.splits)
    with eq have "rmatch re_number prev (x @ c # b) 0 = None" by simp
    with None show ?thesis by (simp add: exec_def)
  next
    case (Some ec)
    then obtain e caps where ex: "exec re_number prev (x @ [c]) = Some (e, caps)"
      by (cases ec) auto
    then obtain ms where "rmatch re_number prev (x @ [c]) 0 = Some (ms, e)"
      by (auto simp: exec_def split: option.splits)
    with eq have "rmatch re_number prev (x @ c # b) 0 = Some (ms, e)" by simp
    then obtain caps' where ex': "exec re_number prev (x @ c # b) = Some (e, caps')"
      by (simp add: exec_def)
    from ex obtain w r where w: "x @ [c] = w @ r" "e = length w" "caps = [w, w]"
      by (rule exec_number)
    from ex' obtain w' r' where w': "x @ c # b = w' @ r'" "e = length w'" "caps' = [w', w']"
      by (rule exec_number)
    from w(1,2) have "w = take e (x @ [c])" by simp
    moreover from w'(1,2) have "w' = take e (x @ c # b)" by simp
    moreover from arg_cong [OF w(1), of length] w(2) have "e \<le> length (x @ [c])"
      by simp
    then have "take e (x @ c # b) = take e (x @ [c])" by (intro take_stop) simp
    ultimately show ?thesis using ex ex' w(3) w'(3) by simp
  qed
qed

lemma scan_number_Nil: "scan re_number prev [] = []"
  by (simp add: scan_Nil exec_number_no_digit)

lemma scan_number_prev:
  "b = [] \<or> \<not> is_digit (hd b) \<Longrightarrow> scan re_number prev b = scan re_number None b"
  by (cases b) (simp_all add: scan_number_Nil scan_text_step exec_number_no_digit)

lemma scan_number_split:
  assumes c: "\<not> is_digit c" "c \<noteq> 46"
  shows "scan re_number prev (a @ c # b)
     = scan re_number prev (a @ [c]) @ scan re_number (Some c) b"
proof (induction a arbitrary: prev rule: measure_induct_rule [of length])
  case (less a)
  note loc = exec_number_local [OF c, of prev a b]
  show ?case
  proof (cases "exec re_number prev (a @ [c])")
    case None
    show ?thesis
    proof (cases a)
      case Nil
      with None loc show ?thesis
        by (simp add: scan_text_step scan_number_Nil)
    next
      case (Cons x a')
      with None loc less.IH [of a' "Some x"] show ?thesis
        by (simp add: scan_text_step)
    qed
  next
    case (Some ec)
    then obtain e caps where ex: "exec re_number prev (a @ [c]) = Some (e, caps)"
      by (cases ec) auto
    from ex obtain w r where w: "a @ [c] = w @ r" "e = length w" "w \<noteq> []"
      and dd: "list_all (\<lambda>c. is_digit c \<or> c = 46) w"
      by (rule exec_number)
    from dd c have cw: "c \<notin> set w" by (auto simp: list_all_iff)
    have "r \<noteq> []"
    proof
      assume "r = []"
      with w(1) have "w = a @ [c]" by simp
      with cw show False by simp
    qed
    then have "a @ [c] = (w @ butlast r) @ [last r]" using w(1) by simp
    then have "a = w @ butlast r" "c = last r" by simp_all
    with \<open>r \<noteq> []\<close> have "a = w @ butlast r \<and> r = butlast r @ [c]" by simp
    then obtain a' where a: "a = w @ a'" "r = a' @ [c]" by blast
    have e0: "0 < e" using w by simp
    have n: "(a @ [c]) ! (e - 1) = (a @ c # b) ! (e - 1)"
      using a w by (simp add: nth_append)
    have l: "length a' < length a" using a w(3) by simp
    from scan_match_step [OF ex e0] a w(2)
    have 1: "scan re_number prev (a @ [c])
        = Match caps # scan re_number (Some ((a @ [c]) ! (e - 1))) (a' @ [c])"
      by simp
    from ex loc have "exec re_number prev (a @ c # b) = Some (e, caps)" by simp
    from scan_match_step [OF this e0] a w(2)
    have 2: "scan re_number prev (a @ c # b)
        = Match caps # scan re_number (Some ((a @ c # b) ! (e - 1))) (a' @ c # b)"
      by simp
    from less.IH [OF l, of "Some ((a @ c # b) ! (e - 1))"] 1 2 n show ?thesis by simp
  qed
qed

text \<open>No match ends inside a run of word characters.\<close>

lemma exec_number_end:
  assumes "exec re_number prev s = Some (e, caps)"
  shows "0 < e \<and> e \<le> length s \<and> at_boundary (Some (s ! (e - 1))) (drop e s)
     \<and> list_all (\<lambda>c. is_digit c \<or> c = 46) (take e s)"
proof -
  from assms obtain ms where m: "rmatch re_number prev s 0 = Some (ms, e)"
    by (auto simp: exec_def split: option.splits)
  from wordb_result(2) [OF m [unfolded re_number_def js_content_lits]]
  have m1: "rmatch [GOpen, Plus Greedy is_digit, Opt [46], Star Greedy is_digit, GClose, WordB]
      prev s 0 = Some (ms, e)" .
  from m1 obtain ms1 where
    m2: "rmatch [Plus Greedy is_digit, Opt [46], Star Greedy is_digit, GClose, WordB]
      prev s 0 = Some (ms1, e)"
    by (rule gopen_result)
  from m2 obtain d1 r1 where s1: "s = d1 @ r1" and p1: "list_all is_digit d1" and n1: "d1 \<noteq> []"
    and m3: "rmatch [Opt [46], Star Greedy is_digit, GClose, WordB] (after_lit prev d1) r1
      (0 + length d1) = Some (ms1, e)"
    by (rule plus_read)
  from m3 obtain dot r2 where s2: "r1 = dot @ r2" and po: "dot = [46] \<or> dot = []"
    and m4: "rmatch [Star Greedy is_digit, GClose, WordB] (after_lit (after_lit prev d1) dot) r2
      (0 + length d1 + length dot) = Some (ms1, e)"
    by (rule opt_read)
  from m4 obtain d2 r p3 where s3: "r2 = d2 @ r" and p2: "list_all is_digit d2"
    and m5: "rmatch [GClose, WordB] p3 r (0 + length d1 + length dot + length d2) = Some (ms1, e)"
    and p3: "p3 = after_lit (after_lit (after_lit prev d1) dot) d2"
    by (rule star_read)
  from m5 obtain ms2 where
    m6: "rmatch [WordB] p3 r (0 + length d1 + length dot + length d2) = Some (ms2, e)"
    by (auto elim: gclose_result)
  from wordb_result [OF m6] have b: "at_boundary p3 r"
    and e: "e = length d1 + length dot + length d2"
    by simp_all
  define w where "w = d1 @ dot @ d2"
  have s: "s = w @ r" using s1 s2 s3 by (simp add: w_def)
  have w: "w \<noteq> []" using n1 by (simp add: w_def)
  have ew: "e = length w" using e by (simp add: w_def)
  have "p3 = Some (last w)"
    using p3 n1 by (auto simp: after_lit_def w_def)
  moreover have "s ! (e - 1) = last w"
    using nth_last_append [OF w, of r] s ew by simp
  moreover have "drop e s = r" using s ew by simp
  moreover have "take e s = w" using s ew by simp
  moreover have "list_all (\<lambda>c. is_digit c \<or> c = 46) w"
    using p1 p2 po by (auto simp: list_all_iff w_def)
  ultimately show ?thesis using b ew w s by simp
qed

lemma not_word_dot: "\<not> is_word 46"
  by (simp add: is_word_def in_range_def)

lemma exec_number_word_run:
  assumes w: "list_all is_word w" and n: "\<not> list_all is_digit w"
  shows "exec re_number prev (w @ b) = None"
proof (rule ccontr)
  assume "exec re_number prev (w @ b) \<noteq> None"
  then obtain e caps where ex: "exec re_number prev (w @ b) = Some (e, caps)" by auto
  from exec_number_end [OF ex] have e: "0 < e" "e \<le> length (w @ b)"
    and bd: "at_boundary (Some ((w @ b) ! (e - 1))) (drop e (w @ b))"
    and dd: "list_all (\<lambda>c. is_digit c \<or> c = 46) (take e (w @ b))"
    by simp_all
  show False
  proof (cases "e < length w")
    case True
    then have lt: "e - 1 < length w" by simp
    then have "(w @ b) ! (e - 1) = w ! (e - 1)" "e - 1 < length w"
      by (simp_all add: nth_append)
    with w have 1: "is_word ((w @ b) ! (e - 1))" by (simp add: list_all_length)
    from True have "drop e (w @ b) = w ! e # drop (Suc e) w @ b"
      by (simp add: Cons_nth_drop_Suc)
    moreover from True w have "is_word (w ! e)" by (simp add: list_all_length)
    ultimately show False using bd 1 by (simp add: at_boundary_def)
  next
    case False
    then have "take e (w @ b) = w @ take (e - length w) b" by simp
    with dd have "list_all (\<lambda>c. is_digit c \<or> c = 46) w" by simp
    with w not_word_dot have "list_all is_digit w" by (auto simp: list_all_iff)
    with n show False by simp
  qed
qed

lemma scan_number_inside:
  "list_all is_word w \<Longrightarrow> is_word c \<Longrightarrow> b = [] \<or> \<not> is_digit (hd b) \<Longrightarrow>
     scan re_number (Some c) (w @ b) = map Text w @ scan re_number None b"
proof (induction w arbitrary: c)
  case Nil
  with scan_number_prev [of b "Some c"] show ?case by simp
next
  case (Cons x w)
  from Cons.prems have "exec re_number (Some c) ((x # w) @ b) = None"
    by (intro exec_number_no_boundary) simp_all
  with Cons show ?case by (simp add: scan_text_step)
qed

lemma scan_number_word:
  assumes w: "list_all is_word w" and n: "\<not> list_all is_digit w"
    and b: "b = [] \<or> \<not> is_word (hd b)"
  shows "scan re_number prev (w @ b) = map Text w @ scan re_number None b"
proof -
  from n obtain x w' where x: "w = x # w'" by (cases w) auto
  from b have b': "b = [] \<or> \<not> is_digit (hd b)" using is_digit_is_word by blast
  from exec_number_word_run [OF w n, of prev b] x
  have "scan re_number prev (w @ b) = Text x # scan re_number (Some x) (w' @ b)"
    by (simp add: scan_text_step)
  with scan_number_inside [OF _ _ b', of w' x] w x show ?thesis by simp
qed

lemma exec_number_run:
  assumes d: "list_all is_digit d" "d \<noteq> []"
    and p: "case prev of None \<Rightarrow> True | Some c \<Rightarrow> \<not> is_word c"
    and b: "b = [] \<or> (\<not> is_word (hd b) \<and> hd b \<noteq> 46)"
  shows "exec re_number prev (d @ b) = Some (length d, [d, d])"
proof -
  have lw: "is_word (last d)"
    using d by (intro is_digit_is_word) (simp add: list_all_iff)
  have hw: "is_word (hd d)"
    using d by (intro is_digit_is_word) (cases d, simp_all)
  from b have nd: "b = [] \<or> \<not> is_digit (hd b)" using is_digit_is_word by blast
  have bd: "at_boundary (Some (last d)) b"
    using lw b by (cases b) (simp_all add: at_boundary_def)
  have np: "\<not> prefix [46] b" using b by (cases b) simp_all
  have star: "rmatch [Star Greedy is_digit, GClose, WordB] (Some (last d)) b (length d)
      = Some ([length d], length d)"
    using nd bd by (cases b) (simp_all add: rmatch.simps(4))
  have tail: "rmatch [Opt (js ''.''), Star Greedy is_digit, GClose, WordB] (after_lit prev d) b
      (0 + length d) = Some ([length d], length d)"
    using d(2) np star by (simp add: after_lit_def js_content_lits)
  have "rmatch [Plus Greedy is_digit, Opt (js ''.''), Star Greedy is_digit, GClose, WordB] prev (d @ b) 0
      = Some ([length d], length d)"
    by (rule plus_greedy_run [OF d(1) d(2) nd tail])
  moreover have "at_boundary prev (d @ b)"
    using d(2) hw p by (cases d; cases prev) (simp_all add: at_boundary_def)
  ultimately have "rmatch re_number prev (d @ b) 0 = Some ([0, length d], length d)"
    by (simp add: re_number_def)
  then show ?thesis by (simp add: exec_def)
qed

lemma scan_number_run:
  assumes d: "list_all is_digit d" "d \<noteq> []"
    and p: "case prev of None \<Rightarrow> True | Some c \<Rightarrow> \<not> is_word c"
    and b: "b = [] \<or> (\<not> is_word (hd b) \<and> hd b \<noteq> 46)"
  shows "scan re_number prev (d @ b) = Match [d, d] # scan re_number None b"
proof -
  from b have nd: "b = [] \<or> \<not> is_digit (hd b)" using is_digit_is_word by blast
  from scan_match_step [OF exec_number_run [OF d p b]] d(2)
  have "scan re_number prev (d @ b) = Match [d, d] # scan re_number (Some ((d @ b) ! (length d - 1))) b"
    by simp
  with scan_number_prev [OF nd, of "Some ((d @ b) ! (length d - 1))"] show ?thesis by simp
qed

text \<open>The two facts for a text standing after any other text \<open>a\<close>.\<close>

lemma scan_number_after:
  assumes a: "a = [] \<or> (\<not> is_word (last a) \<and> last a \<noteq> 46)"
  shows "\<exists>prev. (case prev of None \<Rightarrow> True | Some c \<Rightarrow> \<not> is_word c)
     \<and> scan re_number None (a @ s) = scan re_number None a @ scan re_number prev s"
proof (cases "a = []")
  case True
  then have "(case None :: jchar option of None \<Rightarrow> True | Some c \<Rightarrow> \<not> is_word c)
      \<and> scan re_number None (a @ s) = scan re_number None a @ scan re_number None s"
    by (simp add: scan_number_Nil)
  then show ?thesis by blast
next
  case False
  then have "a = butlast a @ [last a]" by simp
  then obtain a' c where ac: "a = a' @ [c]" by blast
  with a have c: "\<not> is_word c" "c \<noteq> 46" by simp_all
  then have "\<not> is_digit c" using is_digit_is_word by blast
  from scan_number_split [OF this c(2), of None a' s] ac
  have "scan re_number None (a @ s) = scan re_number None a @ scan re_number (Some c) s"
    by simp
  with c(1) have "(case Some c of None \<Rightarrow> True | Some c \<Rightarrow> \<not> is_word c)
      \<and> scan re_number None (a @ s) = scan re_number None a @ scan re_number (Some c) s"
    by simp
  then show ?thesis by blast
qed

lemma numbers_word_between:
  assumes a: "a = [] \<or> (\<not> is_word (last a) \<and> last a \<noteq> 46)"
    and w: "list_all is_word w" "\<not> list_all is_digit w"
    and b: "b = [] \<or> \<not> is_word (hd b)"
  shows "numbers (a @ w @ b) = numbers a @ w @ numbers b"
proof -
  from scan_number_after [OF a, of "w @ b"] obtain prev where
    "scan re_number None (a @ w @ b) = scan re_number None a @ scan re_number prev (w @ b)"
    by blast
  with scan_number_word [OF w b, of prev] show ?thesis
    by (simp add: numbers_def replace_all_def render_append render_map_Text)
qed

lemma numbers_digits_between:
  assumes a: "a = [] \<or> (\<not> is_word (last a) \<and> last a \<noteq> 46)"
    and d: "list_all is_digit d" "d \<noteq> []"
    and b: "b = [] \<or> (\<not> is_word (hd b) \<and> hd b \<noteq> 46)"
  shows "numbers (a @ d @ b) = numbers a @ span ''color:#0550ae'' d @ numbers b"
proof -
  from scan_number_after [OF a, of "d @ b"] obtain prev where
    p: "case prev of None \<Rightarrow> True | Some c \<Rightarrow> \<not> is_word c"
    and "scan re_number None (a @ d @ b) = scan re_number None a @ scan re_number prev (d @ b)"
    by blast
  with scan_number_run [OF d p b] show ?thesis
    by (simp add: numbers_def replace_all_def render_append number_repl_def grp_def)
qed

section \<open>The content passes leave the placeholders in place\<close>

lemma placeholder_chars: "c \<in> set (placeholder i) \<Longrightarrow> tok_char c"
  using show_nat_digits [of i]
  by (auto simp: placeholder_def js_placeholder_lits tok_char_def list_all_iff)

lemma tok_char_word: "tok_char c \<Longrightarrow> is_word c"
  by (auto simp: tok_char_def is_word_def in_range_def is_digit_def)

lemma placeholder_hd: "\<exists>p. placeholder i = 95 # p"
  by (simp add: placeholder_def js_placeholder_lits)

lemma placeholder_last: "last (placeholder i) = 95"
  by (simp add: placeholder_def js_placeholder_lits)

text \<open>A cut of the text after a character that no placeholder has, or around a text without
  underscore, is a cut between two items.\<close>

lemma align_last:
  "flatten is = w @ r \<Longrightarrow> w \<noteq> [] \<Longrightarrow> \<not> tok_char (last w) \<Longrightarrow>
     \<exists>xs ys. is = xs @ ys \<and> w = flatten xs \<and> r = flatten ys"
proof (induction "is" arbitrary: w)
  case Nil
  then show ?case by simp
next
  case (Cons i "is")
  show ?case
  proof (cases i)
    case (Chr c)
    with Cons.prems obtain w' where w: "w = c # w'" and f: "flatten is = w' @ r"
      by (cases w) auto
    show ?thesis
    proof (cases "w' = []")
      case True
      with w f Chr have "i # is = [Chr c] @ is \<and> w = flatten [Chr c] \<and> r = flatten is"
        by simp
      then show ?thesis by blast
    next
      case False
      with Cons.prems(3) w have "\<not> tok_char (last w')" by simp
      from Cons.IH [OF f False this] obtain xs ys where
        "is = xs @ ys" "w' = flatten xs" "r = flatten ys" by blast
      with w Chr have "i # is = (Chr c # xs) @ ys \<and> w = flatten (Chr c # xs) \<and> r = flatten ys"
        by simp
      then show ?thesis by blast
    qed
  next
    case (Tok n)
    with Cons.prems have f: "placeholder n @ flatten is = w @ r" by simp
    then consider us where "placeholder n = w @ us" "us @ flatten is = r"
      | us where "placeholder n @ us = w" "flatten is = us @ r"
      by (auto simp: append_eq_append_conv2)
    then show ?thesis
    proof cases
      case 1
      with Cons.prems(2) have "last w \<in> set (placeholder n)" by simp
      with placeholder_chars Cons.prems(3) show ?thesis by blast
    next
      case 2
      have ne: "us \<noteq> []"
      proof
        assume "us = []"
        with 2 have "last w \<in> set (placeholder n)"
          using placeholder_not_Nil [of n] by auto
        with placeholder_chars Cons.prems(3) show False by blast
      qed
      with 2 Cons.prems(3) have l: "\<not> tok_char (last us)" by auto
      from Cons.IH [OF 2(2) ne l] obtain xs ys where
        "is = xs @ ys" "us = flatten xs" "r = flatten ys" by blast
      with 2 Tok have "i # is = (Tok n # xs) @ ys \<and> w = flatten (Tok n # xs) \<and> r = flatten ys"
        by auto
      then show ?thesis by blast
    qed
  qed
qed

lemma align_free:
  "flatten is = w @ r \<Longrightarrow> 95 \<notin> set w \<Longrightarrow>
     \<exists>xs ys. is = xs @ ys \<and> w = flatten xs \<and> r = flatten ys \<and> item_toks xs = []"
proof (induction "is" arbitrary: w)
  case Nil
  then show ?case by simp
next
  case (Cons i "is")
  show ?case
  proof (cases "w = []")
    case True
    with Cons.prems have "i # is = [] @ (i # is) \<and> w = flatten [] \<and> r = flatten (i # is)
        \<and> item_toks [] = []" by simp
    then show ?thesis by blast
  next
    case False
    then obtain c w' where w: "w = c # w'" by (cases w) auto
    show ?thesis
    proof (cases i)
      case (Chr x)
      with Cons.prems w have f: "flatten is = w' @ r" and "95 \<notin> set w'" and cx: "x = c" by auto
      from Cons.IH [OF f this(2)] obtain xs ys where
        "is = xs @ ys" "w' = flatten xs" "r = flatten ys" "item_toks xs = []" by blast
      with w Chr cx have "i # is = (Chr c # xs) @ ys \<and> w = flatten (Chr c # xs)
          \<and> r = flatten ys \<and> item_toks (Chr c # xs) = []"
        by simp
      then show ?thesis by blast
    next
      case (Tok n)
      from placeholder_hd [of n] obtain p where "placeholder n = 95 # p" by blast
      with Cons.prems Tok w have "c = 95" by simp
      with Cons.prems(2) w show ?thesis by simp
    qed
  qed
qed

lemma flatten_not_Nil: "xs \<noteq> [] \<Longrightarrow> flatten xs \<noteq> []"
  by (cases xs; cases "hd xs") (auto simp: placeholder_not_Nil)

lemma scan_token:
  assumes "token_blind re"
  shows "scan re prev (placeholder i @ rest) = map Text (placeholder i) @ scan re (Some 95) rest"
proof -
  have "scan re (if a = [] then prev else Some (last a)) (b @ rest)
      = map Text b @ scan re (if a @ b = [] then prev else Some (last (a @ b))) rest"
    if "placeholder i = a @ b" for a b
    using that
  proof (induction b arbitrary: a)
    case Nil
    show ?case by simp
  next
    case (Cons c b)
    from assms Cons.prems
    have "exec re (if a = [] then prev else Some (last a)) ((c # b) @ rest) = None"
      unfolding token_blind_def by blast
    moreover from Cons.prems have "placeholder i = (a @ [c]) @ b" by simp
    from Cons.IH [OF this]
    have "scan re (Some c) (b @ rest)
        = map Text b @ scan re (Some (last (a @ c # b))) rest"
      by simp
    ultimately show ?case by (simp add: scan_text_step)
  qed
  from this [of "[]" "placeholder i"] show ?thesis
    by (simp add: placeholder_not_Nil placeholder_last)
qed

lemma pass_items:
  assumes blind: "token_blind re" and al: "aligned re f"
  shows "\<exists>is'. render f (scan re prev (flatten is)) = flatten is' \<and> grown is is'"
proof (induction "is" arbitrary: prev rule: measure_induct_rule [of length])
  case (less "is")
  show ?case
  proof (cases "exec re prev (flatten is)")
    case (Some ec)
    then obtain e caps where ex: "exec re prev (flatten is) = Some (e, caps)" by (cases ec) auto
    from al [unfolded aligned_def, rule_format, OF ex]
    obtain xs ys ins where i: "is = xs @ ys" and xs: "xs \<noteq> []"
      and e: "e = length (flatten xs)" and f: "f caps = flatten ins"
      and g: "grown xs ins"
      by (elim exE conjE)
    have e0: "0 < e" and ne: "flatten is \<noteq> []"
      using flatten_not_Nil [OF xs] e i by simp_all
    have d: "drop e (flatten is) = flatten ys" using e i by simp
    have sc: "scan re prev (flatten is)
        = Match caps # scan re (Some (flatten is ! (e - 1))) (flatten ys)"
      using scan_match_step [OF ex e0 ne] d by simp
    have l: "length ys < length is" using i xs by simp
    from less.IH [OF l, of "Some (flatten is ! (e - 1))"] obtain ys' where
      "render f (scan re (Some (flatten is ! (e - 1))) (flatten ys)) = flatten ys'"
      "grown ys ys'"
      by (elim exE conjE)
    with sc f i grown_append [OF g this(2)]
    have "render f (scan re prev (flatten is)) = flatten (ins @ ys') \<and> grown is (ins @ ys')"
      by simp
    then show ?thesis by blast
  next
    case None
    show ?thesis
    proof (cases "is")
      case Nil
      with None have "render f (scan re prev (flatten is)) = flatten [] \<and> grown is []"
        by (simp add: scan_Nil grown_Nil)
      then show ?thesis by blast
    next
      case (Cons i ys)
      have l: "length ys < length is" using Cons by simp
      show ?thesis
      proof (cases i)
        case (Chr c)
        from less.IH [OF l, of "Some c"] obtain ys' where
          "render f (scan re (Some c) (flatten ys)) = flatten ys'" "grown ys ys'"
          by (elim exE conjE)
        with None Cons Chr
        have "render f (scan re prev (flatten is)) = flatten (Chr c # ys')
            \<and> grown is (Chr c # ys')"
          by (simp add: scan_text_step grown_keep)
        then show ?thesis by blast
      next
        case (Tok k)
        from less.IH [OF l, of "Some 95"] obtain ys' where
          "render f (scan re (Some 95) (flatten ys)) = flatten ys'" "grown ys ys'"
          by (elim exE conjE)
        with Cons Tok scan_token [OF blind, of prev k "flatten ys"]
        have "render f (scan re prev (flatten is)) = flatten (Tok k # ys')
            \<and> grown is (Tok k # ys')"
          by (simp add: render_map_Text_append grown_keep)
        then show ?thesis by blast
      qed
    qed
  qed
qed

lemma no_toks_Chr: "item_toks xs = [] \<Longrightarrow> xs = map Chr (flatten xs)"
proof (induction xs)
  case Nil
  show ?case by simp
next
  case (Cons x xs)
  then show ?case by (cases x) simp_all
qed

lemma grown_kept: "grown is is' \<Longrightarrow> kept is is'"
  unfolding kept_def
  using grown_toks [of "is" is'] grown_headless [of "is" is' "[]"] grown_expand [of "is" is']
  by simp

lemma kept_trans: "kept a b \<Longrightarrow> kept b c \<Longrightarrow> kept a c"
  unfolding kept_def by (auto intro: subseq_non_blank_trans)

section \<open>The placeholders through the content passes\<close>

lemma not_tok_char: "\<not> tok_char 34" "\<not> tok_char 58"
  by (simp_all add: tok_char_def is_digit_def in_range_def)

lemma token_blind_Lit:
  assumes "\<not> tok_char q"
  shows "token_blind (Lit [q] # as)"
  unfolding token_blind_def
proof (intro allI impI)
  fix i a b prev rest
  assume p: "placeholder i = a @ b" and b: "b \<noteq> ([] :: jstring)"
  from b obtain c b' where c: "b = c # b'" by (cases b) auto
  with p have "c \<in> set (placeholder i)" by simp
  with placeholder_chars assms have "c \<noteq> q" by blast
  with c show "exec (Lit [q] # as) (if a = [] then prev else Some (last a)) (b @ rest) = None"
    by (simp add: exec_def)
qed

lemma token_blind_string: "token_blind re_string"
  unfolding re_string_def js_content_lits by (rule token_blind_Lit) (rule not_tok_char)

lemma token_blind_json_key: "token_blind re_json_key"
  unfolding re_json_key_def js_content_lits by (rule token_blind_Lit) (rule not_tok_char)

lemma token_blind_WordB:
  assumes "\<And>prev rest p. exec (WordB # as) prev (95 # p @ rest) = None"
  shows "token_blind (WordB # as)"
  unfolding token_blind_def
proof (intro allI impI)
  fix i a b prev rest
  assume p: "placeholder i = a @ b" and b: "b \<noteq> ([] :: jstring)"
  show "exec (WordB # as) (if a = [] then prev else Some (last a)) (b @ rest) = None"
  proof (cases "a = []")
    case True
    with p placeholder_hd [of i] obtain q where "b = 95 # q" by auto
    with True assms [of prev q rest] show ?thesis by simp
  next
    case False
    from b obtain c b' where c: "b = c # b'" by (cases b) auto
    from p False have "last a \<in> set (placeholder i)" by simp
    moreover from p c have "c \<in> set (placeholder i)" by simp
    ultimately have "is_word (last a)" "is_word c"
      using placeholder_chars tok_char_word by blast+
    with False c show ?thesis by (simp add: exec_def at_boundary_def)
  qed
qed

lemma token_blind_number: "token_blind re_number"
  unfolding re_number_def
  by (rule token_blind_WordB) (simp add: exec_def rmatch.simps(5) not_digit_underscore)

lemma token_blind_boolean: "token_blind re_boolean"
  unfolding re_boolean_def
  by (rule token_blind_WordB) (simp add: exec_def js_content_lits)

lemma aligned_span:
  assumes i: "is = xs @ ys" and xs: "xs \<noteq> []" and st: "95 \<notin> set (js st)"
  shows "\<exists>xs' ys' ins. is = xs' @ ys' \<and> xs' \<noteq> [] \<and> length (flatten xs) = length (flatten xs')
     \<and> span st (flatten xs) = flatten ins \<and> grown xs' ins"
proof -
  let ?ins = "map Chr (span_open st) @ xs @ map Chr span_close"
  have "span st (flatten xs) = flatten ?ins" by (simp add: span_def)
  moreover have "grown ([] @ xs @ []) ?ins"
    using grown_markup [OF markup_open [OF st], of "[]"] grown_markup [OF markup_close, of "[]"]
    by (intro grown_append grown_refl) simp_all
  ultimately have "is = xs @ ys \<and> xs \<noteq> [] \<and> length (flatten xs) = length (flatten xs)
      \<and> span st (flatten xs) = flatten ?ins \<and> grown xs ?ins"
    using i xs by simp
  then show ?thesis by blast
qed

lemma aligned_string: "aligned re_string string_repl"
  unfolding aligned_def
proof (intro allI impI)
  fix "is" prev e caps
  assume ex: "exec re_string prev (flatten is) = Some (e, caps)"
  from ex obtain b r where s: "flatten is = 34 # b @ 34 # r" and e: "e = length b + 2"
    and c: "caps = [34 # b @ [34], b]"
    by (rule exec_string)
  let ?w = "34 # b @ [34]"
  from s have "flatten is = ?w @ r" by simp
  from align_last [OF this] not_tok_char(1) obtain xs ys where i: "is = xs @ ys"
    and w: "?w = flatten xs" by auto
  from w have xs: "xs \<noteq> []" by auto
  have f: "string_repl caps = span ''color:#0a3069'' (flatten xs)"
    using c w by (simp add: string_repl_def grp_def js_content_lits)
  have "e = length (flatten xs)" using e w [symmetric] by simp
  with aligned_span [OF i xs style_no_underscore(7)] f
  show "\<exists>xs ys ins. is = xs @ ys \<and> xs \<noteq> [] \<and> e = length (flatten xs)
      \<and> string_repl caps = flatten ins \<and> grown xs ins"
    by simp
qed

lemma aligned_whole:
  assumes ex: "\<And>prev s e caps. exec re prev s = Some (e, caps) \<Longrightarrow>
      \<exists>w r. s = w @ r \<and> e = length w \<and> w \<noteq> [] \<and> caps = [w, w] \<and> 95 \<notin> set w"
    and st: "95 \<notin> set (js st)"
  shows "aligned re (\<lambda>c. span st (grp c 1))"
  unfolding aligned_def
proof (intro allI impI)
  fix "is" prev e caps
  assume x: "exec re prev (flatten is) = Some (e, caps)"
  from ex [OF x] obtain w r where s: "flatten is = w @ r" and e: "e = length w"
    and w: "w \<noteq> []" and c: "caps = [w, w]" and u: "95 \<notin> set w"
    by blast
  from align_free [OF s u] obtain xs ys where i: "is = xs @ ys" and wx: "w = flatten xs"
    by blast
  from w wx have xs: "xs \<noteq> []" by auto
  have f: "span st (grp caps 1) = span st (flatten xs)"
    using c wx by (simp add: grp_def)
  from aligned_span [OF i xs st] e wx f
  show "\<exists>xs ys ins. is = xs @ ys \<and> xs \<noteq> [] \<and> e = length (flatten xs)
      \<and> span st (grp caps 1) = flatten ins \<and> grown xs ins"
    by simp
qed

lemma aligned_number: "aligned re_number number_repl"
proof -
  have "aligned re_number (\<lambda>c. span ''color:#0550ae'' (grp c 1))"
  proof (rule aligned_whole [OF _ style_no_underscore(4)])
    fix prev s e caps
    assume "exec re_number prev s = Some (e, caps)"
    then obtain w r where "s = w @ r" "e = length w" "w \<noteq> []" "caps = [w, w]"
      "list_all (\<lambda>c. is_digit c \<or> c = 46) w"
      by (rule exec_number)
    moreover from this(5) have "95 \<notin> set w"
      by (auto simp: list_all_iff not_digit_underscore)
    ultimately show "\<exists>w r. s = w @ r \<and> e = length w \<and> w \<noteq> [] \<and> caps = [w, w] \<and> 95 \<notin> set w"
      by blast
  qed
  moreover have "number_repl = (\<lambda>c. span ''color:#0550ae'' (grp c 1))"
    by (rule ext) (simp add: number_repl_def)
  ultimately show ?thesis by simp
qed

lemma aligned_boolean: "aligned re_boolean boolean_repl"
proof -
  have "aligned re_boolean (\<lambda>c. span ''color:#cf222e;font-weight:500'' (grp c 1))"
  proof (rule aligned_whole [OF _ style_no_underscore(10)])
    fix prev s e caps
    assume "exec re_boolean prev s = Some (e, caps)"
    then obtain w r where "s = w @ r" "e = length w" "caps = [w, w]"
      "w \<in> {js ''true'', js ''false'', js ''nil'', js ''null''}"
      by (rule exec_boolean)
    moreover from this(4) have "w \<noteq> []" "95 \<notin> set w"
      by (auto simp: js_content_lits)
    ultimately show "\<exists>w r. s = w @ r \<and> e = length w \<and> w \<noteq> [] \<and> caps = [w, w] \<and> 95 \<notin> set w"
      by blast
  qed
  moreover have "boolean_repl = (\<lambda>c. span ''color:#cf222e;font-weight:500'' (grp c 1))"
    by (rule ext) (simp add: boolean_repl_def)
  ultimately show ?thesis by simp
qed

lemma not_space_underscore: "\<not> is_space 95"
  by (simp add: is_space_def in_range_def)

lemma aligned_json_key: "aligned re_json_key json_key_repl"
  unfolding aligned_def
proof (intro allI impI)
  fix "is" prev e caps
  assume ex: "exec re_json_key prev (flatten is) = Some (e, caps)"
  from ex obtain g ws r where s: "flatten is = 34 # g @ 34 # ws @ 58 # r"
    and e: "e = length g + length ws + 3" and c: "caps = [34 # g @ 34 # ws @ [58], g]"
    and sp: "list_all is_space ws"
    by (rule exec_json_key)
  let ?k = "34 # g @ [34]"
  from s have "flatten is = ?k @ (ws @ [58]) @ r" by simp
  from align_last [OF this] not_tok_char(1) obtain xs zs where i1: "is = xs @ zs"
    and k: "?k = flatten xs" and z: "(ws @ [58]) @ r = flatten zs" by auto
  have "95 \<notin> set (ws @ [58])"
    using sp not_space_underscore by (auto simp: list_all_iff)
  from align_free [OF z [symmetric] this] obtain us ys where i2: "zs = us @ ys"
    and u: "ws @ [58] = flatten us" and t: "item_toks us = []" by blast
  have us: "us = map Chr ws @ [Chr 58]"
    by (subst no_toks_Chr [OF t]) (simp add: u [symmetric])
  let ?ins = "map Chr (span_open ''color:#953800'') @ xs @ map Chr span_close @ [Chr 58]"
  have i: "is = (xs @ us) @ ys" using i1 i2 by simp
  moreover from k have "xs @ us \<noteq> []" by auto
  moreover have "e = length (flatten (xs @ us))"
    using e k [symmetric] u [symmetric] by simp
  moreover have "json_key_repl caps = flatten ?ins"
    using c k [symmetric] by (simp add: json_key_repl_def grp_def span_def js_content_lits)
  moreover have "grown (xs @ us) ?ins"
  proof -
    have a: "grown [] (map Chr (span_open ''color:#953800''))"
      using grown_markup [OF markup_open [OF style_no_underscore(9)], of "[]"] by simp
    have b: "grown (map Chr ws @ [Chr 58]) (map Chr span_close @ [Chr 58])"
      by (rule grown_put [OF grown_refl [of "[Chr 58]"] markup_close sp])
    from grown_append [OF a grown_append [OF grown_refl [of xs] b]] us show ?thesis by simp
  qed
  ultimately show "\<exists>xs ys ins. is = xs @ ys \<and> xs \<noteq> [] \<and> e = length (flatten xs)
      \<and> json_key_repl caps = flatten ins \<and> grown xs ins"
    by blast
qed

text \<open>The four content passes one after the other, on a masked text.\<close>

lemma content_stages:
  "\<exists>i2 i3 i4. strings (json_keys (flatten is)) = flatten i2 \<and> numbers (flatten i2) = flatten i3
     \<and> booleans (flatten i3) = flatten i4 \<and> kept is i2 \<and> kept is i3 \<and> kept is i4"
proof -
  from pass_items [OF token_blind_json_key aligned_json_key, of None "is"]
  obtain i1 where 1: "json_keys (flatten is) = flatten i1" "grown is i1"
    unfolding json_keys_def replace_all_def by (elim exE conjE)
  from pass_items [OF token_blind_string aligned_string, of None i1]
  obtain i2 where 2: "strings (flatten i1) = flatten i2" "grown i1 i2"
    unfolding strings_def replace_all_def by (elim exE conjE)
  from pass_items [OF token_blind_number aligned_number, of None i2]
  obtain i3 where 3: "numbers (flatten i2) = flatten i3" "grown i2 i3"
    unfolding numbers_def replace_all_def by (elim exE conjE)
  from pass_items [OF token_blind_boolean aligned_boolean, of None i3]
  obtain i4 where 4: "booleans (flatten i3) = flatten i4" "grown i3 i4"
    unfolding booleans_def replace_all_def by (elim exE conjE)
  have k2: "kept is i2" by (rule kept_trans [OF grown_kept [OF 1(2)] grown_kept [OF 2(2)]])
  have k3: "kept is i3" by (rule kept_trans [OF k2 grown_kept [OF 3(2)]])
  have k4: "kept is i4" by (rule kept_trans [OF k3 grown_kept [OF 4(2)]])
  from 1 2 3 4 k2 k3 k4 show ?thesis by auto
qed

lemma piece_chars_items: "piece_chars (map item_piece is) = item_chars is"
proof (induction "is")
  case Nil
  show ?case by simp
next
  case (Cons i "is")
  then show ?case by (cases i) simp_all
qed

text \<open>The whole line, when it has no beginning of a placeholder.\<close>

lemma pipeline:
  fixes raw :: jstring
  defines "t \<equiv> structural (escape_html raw)"
  defines "m \<equiv> fst (mask t)"
  defines "tags \<equiv> snd (mask t)"
  assumes raw: "\<not> placeholder_like raw"
  shows "match_texts (scan re_placeholder None m) = map placeholder [0 ..< length tags]"
    and "unmask tags m = t"
    and "piece_chars (scan re_placeholder None m) = piece_chars (scan re_markup None t)"
    and "match_texts (scan re_placeholder None (strings (json_keys m)))
           = map placeholder [0 ..< length tags]"
    and "match_texts (scan re_placeholder None (numbers (strings (json_keys m))))
           = map placeholder [0 ..< length tags]"
    and "match_texts (scan re_placeholder None (content m)) = map placeholder [0 ..< length tags]"
    and "no_match re_placeholder (highlightLine raw)"
    and "subseq (non_blank (escape_html raw)) (highlightLine raw)"
proof -
  let ?ps = "scan re_markup None t"
  let ?is = "mask_items 0 ?ps"
  have ht: "headless t"
    unfolding t_def using raw by (intro structural_headless escape_headless) (simp add: headless_iff)
  have mt: "m = flatten ?is" "tags = match_texts ?ps"
    by (simp_all add: m_def tags_def mask_items_eq)
  have h0: "headless (marks ?is)" by (rule mask_items_headless [OF ht])
  have n: "item_toks ?is = [0 ..< length tags]"
    by (simp add: item_toks_mask mt)
  from mask_roundtrip [OF ht]
  show "match_texts (scan re_placeholder None m) = map placeholder [0 ..< length tags]"
    and "unmask tags m = t"
    by (simp_all add: m_def tags_def)
  show "piece_chars (scan re_placeholder None m) = piece_chars (scan re_markup None t)"
    using masked_tokens [OF ht] by (simp add: m_def piece_chars_items item_chars_mask)
  from content_stages [of ?is] obtain i2 i3 i4 where
    s2: "strings (json_keys m) = flatten i2" and s3: "numbers (flatten i2) = flatten i3"
    and s4: "booleans (flatten i3) = flatten i4"
    and k: "kept ?is i2" "kept ?is i3" "kept ?is i4"
    unfolding mt(1) by (elim exE conjE)
  have toks: "match_texts (scan re_placeholder None (flatten i))
      = map placeholder [0 ..< length tags]" if "kept ?is i" for i
  proof -
    from that h0 have "headless (marks i)" "item_toks i = item_toks ?is"
      by (simp_all add: kept_def)
    with scan_placeholder_items [of i None] n show ?thesis
      by (simp add: match_texts_item_pieces)
  qed
  from toks [OF k(1)]
  show "match_texts (scan re_placeholder None (strings (json_keys m)))
      = map placeholder [0 ..< length tags]"
    by (simp add: s2)
  from toks [OF k(2)]
  show "match_texts (scan re_placeholder None (numbers (strings (json_keys m))))
      = map placeholder [0 ..< length tags]"
    by (simp add: s2 s3)
  have c: "content m = flatten i4" by (simp add: content_def s2 s3 s4)
  from toks [OF k(3)]
  show "match_texts (scan re_placeholder None (content m)) = map placeholder [0 ..< length tags]"
    by (simp add: c)
  have h4: "headless (marks i4)" using k(3) h0 by (simp add: kept_def)
  have hl: "highlightLine raw = expand tags i4"
    using scan_placeholder_items [OF h4, of None]
    by (simp add: highlightLine_def t_def [symmetric] m_def tags_def case_prod_unfold Let_def
        c [unfolded m_def] unmask_def replace_all_def expand_def)
  have "prefix [60] e \<and> suffix [62] e \<and> headless e" if "e \<in> set tags" for e
  proof -
    from that mask_structural_entries [of raw] have "made_of_tags e"
      by (simp add: list_all_iff tags_def t_def)
    moreover from that have "sublist e t" unfolding mt(2) by (rule match_texts_sublist)
    ultimately show ?thesis using headless_sublist [OF _ ht] by (simp add: made_of_tags_def)
  qed
  then have "headless ([] @ expand tags i4)"
    using h4 by (intro expand_headless) simp_all
  then show "no_match re_placeholder (highlightLine raw)"
    by (simp add: hl headless_no_placeholder)
  have "subseq (non_blank (escape_html raw)) t"
    unfolding t_def by (rule structural_subseq)
  moreover from k(3) have "subseq (non_blank (expand tags ?is)) (expand tags i4)"
    by (simp add: kept_def)
  with expand_mask_items [of t] have "subseq (non_blank t) (expand tags i4)"
    by (simp add: mt(2))
  ultimately show "subseq (non_blank (escape_html raw)) (highlightLine raw)"
    unfolding hl by (rule subseq_non_blank_trans)
qed

section \<open>The highlighter on concrete lines\<close>

lemma hl_count:
  \<open>highlightLine (js ''"count": 5'') =
     js ''<span style=<span style="color:#0a3069">"color:#<span style="color:#0550ae">953800</span>"</span>><span style="color:#0a3069">"count"</span></span>: <span style="color:#0550ae">5</span>''\<close>
  by code_simp

lemma hl_div:
  \<open>highlightLine (js ''<div class="a">'') =
     js ''<span style="color:#6e7781">&lt;</span><span style="color:#0550ae">div</span> <span style="color:#116329">class</span>=<span style="color:#0a3069"><span style="color:#0a3069">"a"</span></span><span style="color:#6e7781">&gt;</span>''\<close>
  by code_simp

lemma hl_img:
  \<open>highlightLine (js ''<img width="1200">'') =
     js ''<span style="color:#6e7781">&lt;</span><span style="color:#0550ae">img</span> <span style="color:#116329">width</span>=<span style="color:#0a3069"><span style="color:#0a3069">"<span style="color:#0550ae">1200</span>"</span></span><span style="color:#6e7781">&gt;</span>''\<close>
  by code_simp

lemma number_matches_img:
  \<open>match_texts (scan re_number None (before_numbers (js ''<img width="1200">''))) = [js ''1200'']\<close>
  by code_simp

lemma hl_item: "highlightLine (js ''item123'') = js ''item123''"
  by code_simp

lemma hl_123: \<open>highlightLine (js ''123'') = js ''<span style="color:#0550ae">123</span>''\<close>
  by code_simp

lemma hl_amp: "highlightLine (js ''&amp;'') = js ''&amp;amp;''"
  by code_simp

lemma hl_tok5: "highlightLine (js ''__HL_TAG_5__'') = js ''undefined''"
  by code_simp

lemma mask_tok5:
  "mask (structural (escape_html (js ''__HL_TAG_5__''))) = (js ''__HL_TAG_5__'', [])"
  by code_simp

lemma hl_empty: "highlightLine [] = []"
  by code_simp



lemma mask_b_tok0:
  \<open>mask (structural (escape_html (js ''<b>__HL_TAG_0__''))) =
     (js ''__HL_TAG_0__&lt;__HL_TAG_1____HL_TAG_2__b__HL_TAG_3____HL_TAG_4__&gt;__HL_TAG_5____HL_TAG_0__'',
      [js ''<span style="color:#6e7781">'', js ''</span>'', js ''<span style="color:#0550ae">'',
       js ''</span>'', js ''<span style="color:#6e7781">'', js ''</span>''])\<close>
  by code_simp

lemma tokens_b_tok0:
  \<open>match_texts (scan re_placeholder None
     (js ''__HL_TAG_0__&lt;__HL_TAG_1____HL_TAG_2__b__HL_TAG_3____HL_TAG_4__&gt;__HL_TAG_5____HL_TAG_0__'')) =
     [js ''__HL_TAG_0__'', js ''__HL_TAG_1__'', js ''__HL_TAG_2__'', js ''__HL_TAG_3__'',
      js ''__HL_TAG_4__'', js ''__HL_TAG_5__'', js ''__HL_TAG_0__'']\<close>
  by code_simp

lemma hl_b_tok0:
  \<open>highlightLine (js ''<b>__HL_TAG_0__'') =
     js ''<span style="color:#6e7781">&lt;</span><span style="color:#0550ae">b</span><span style="color:#6e7781">&gt;</span><span style="color:#6e7781">''\<close>
  by code_simp

lemma hl_head_b:
  \<open>highlightLine (js ''__HL_TAG_1<b>'') =
     js ''</span>HL_TAG_0__&lt;</span><span style="color:#0550ae">b</span><span style="color:#6e7781">&gt;</span>''\<close>
  by code_simp

lemma mask_b:
  \<open>mask (structural (escape_html (js ''<b>''))) =
     (js ''__HL_TAG_0__&lt;__HL_TAG_1____HL_TAG_2__b__HL_TAG_3____HL_TAG_4__&gt;__HL_TAG_5__'',
      [js ''<span style="color:#6e7781">'', js ''</span>'', js ''<span style="color:#0550ae">'',
       js ''</span>'', js ''<span style="color:#6e7781">'', js ''</span>''])\<close>
  by code_simp

lemma tokens_b:
  \<open>length (match_texts (scan re_placeholder None
     (js ''__HL_TAG_0__&lt;__HL_TAG_1____HL_TAG_2__b__HL_TAG_3____HL_TAG_4__&gt;__HL_TAG_5__''))) = 6\<close>
  by code_simp

lemma mask_b_ab:
  \<open>mask (structural (escape_html (js ''<b>a_b''))) =
     (js ''__HL_TAG_0__&lt;__HL_TAG_1____HL_TAG_2__b__HL_TAG_3____HL_TAG_4__&gt;__HL_TAG_5__a_b'',
      [js ''<span style="color:#6e7781">'', js ''</span>'', js ''<span style="color:#0550ae">'',
       js ''</span>'', js ''<span style="color:#6e7781">'', js ''</span>''])\<close>
  by code_simp

lemma count_spans_b: "count_spans (structural (escape_html (js ''<b>''))) = 3"
  by code_simp

lemma not_like:
  "\<not> placeholder_like (js ''<b>a_b'')" "\<not> placeholder_like (js ''{% if x > 5'')"
  "\<not> placeholder_like (js ''{{ y }} {% if x'')"
  \<open>\<not> placeholder_like (js ''<img width="1200">'')\<close>
  by code_simp+

lemma hl_b123:
  \<open>highlightLine (js ''<b>123'') =
     js ''<span style="color:#6e7781">&lt;</span><span style="color:#0550ae">b</span><span style="color:#6e7781">&gt;</span>123''\<close>
  by code_simp

lemma numbers_b123: \<open>no_match re_number (before_numbers (js ''<b>123''))\<close>
  by code_simp

lemma hl_between:
  \<open>highlightLine (js ''x item123 12px 123 y'') =
     js ''x item123 12px <span style="color:#0550ae">123</span> y''\<close>
  by code_simp





lemma numbers_small:
  "numbers (js ''x '') = js ''x ''" "numbers (js '' y'') = js '' y''"
  \<open>numbers (js ''w="'') = js ''w="''\<close> \<open>numbers (js ''">'') = js ''">''\<close>
  by code_simp+

lemma runs_small:
  "list_all is_word (js ''item123'')" "\<not> list_all is_digit (js ''item123'')"
  "list_all is_word (js ''12px'')" "\<not> list_all is_digit (js ''12px'')"
  "list_all is_digit (js ''123'')" "list_all is_digit (js ''1200'')"
  by code_simp+

lemma bounds_small:
  "\<not> is_word (last (js ''x ''))" "last (js ''x '') \<noteq> 46"
  "\<not> is_word (hd (js '' y''))" "hd (js '' y'') \<noteq> 46"
  by code_simp+



section \<open>The properties of the specification\<close>

text \<open>
  C1 (as stated, refuted). A numeral that occurs only inside an attribute value would be
  colored once, by the tag pass, and never matched by the number pass. On the line
  \<^verbatim>\<open><img width="1200">\<close> the number pass does match \<^verbatim>\<open>1200\<close>: masking replaces the span
  tags, and the text between them stays in the masked line.
\<close>

theorem attr_numeral_counterexample:
  \<open>match_texts (scan re_number None (before_numbers (js ''<img width="1200">''))) = [js ''1200'']
   \<and> max_span_depth (highlightLine (js ''<img width="1200">'')) = 3\<close>
  by (simp add: number_matches_img hl_img) code_simp

text \<open>
  C1 (amended). Masking hides the tags of the spans from the number pass, and nothing else. For
  every line without the beginning of a placeholder, the masked text keeps every character
  that stands outside of the tags, the text of attribute values included, and the number pass
  leaves every placeholder in its place. And the number pass wraps every run of digits that
  stands between two quotes in the text it scans, whatever stands around. On the line
  \<^verbatim>\<open><img width="1200">\<close>, where the numeral appears only inside an attribute value, the numeral
  is wrapped three times: by the attribute-value span of the tag pass, by the quoted-string pass
  and by the number pass.
\<close>

theorem attr_numeral_wrapped:
  \<open>highlightLine (js ''<img width="1200">'') =
     js ''<span style="color:#6e7781">&lt;</span><span style="color:#0550ae">img</span> <span style="color:#116329">width</span>=<span style="color:#0a3069"><span style="color:#0a3069">"<span style="color:#0550ae">1200</span>"</span></span><span style="color:#6e7781">&gt;</span>''
   \<and> (\<not> placeholder_like raw \<longrightarrow>
        piece_chars (scan re_placeholder None (fst (mask (structural (escape_html raw)))))
          = piece_chars (scan re_markup None (structural (escape_html raw)))
        \<and> match_texts (scan re_placeholder None (numbers (before_numbers raw)))
          = map placeholder [0 ..< length (snd (mask (structural (escape_html raw))))])
   \<and> (list_all is_digit d \<and> d \<noteq> [] \<longrightarrow>
        numbers (a @ js ''"'' @ d @ js ''"'' @ b)
          = numbers (a @ js ''"'') @ span ''color:#0550ae'' d @ numbers (js ''"'' @ b))\<close>
proof -
  have "numbers ((a @ [34]) @ d @ ([34] @ b))
      = numbers (a @ [34]) @ span ''color:#0550ae'' d @ numbers ([34] @ b)"
    if "list_all is_digit d" "d \<noteq> []"
    using that by (intro numbers_digits_between) (simp_all add: is_word_def in_range_def)
  with pipeline(3,5) [of raw] show ?thesis
    by (simp add: hl_img before_numbers_def js_content_lits)
qed

theorem attr_numeral_wrapped_witness:
  \<open>\<not> placeholder_like (js ''<img width="1200">'')
   \<and> match_texts (scan re_placeholder None (numbers (before_numbers (js ''<img width="1200">''))))
       = map placeholder
           [0 ..< length (snd (mask (structural (escape_html (js ''<img width="1200">'')))))]
   \<and> list_all is_digit (js ''1200'') \<and> js ''1200'' \<noteq> []
   \<and> numbers (js ''w='' @ js ''"'' @ js ''1200'' @ js ''"'' @ js ''>'')
       = js ''w="<span style="color:#0550ae">1200</span>">''\<close>
proof -
  note t = attr_numeral_wrapped [of \<open>js ''<img width="1200">''\<close> "js ''1200''" "js ''w=''" "js ''>''"]
  have ne: "js ''1200'' \<noteq> []" by (simp add: js_def)
  have 1: \<open>match_texts (scan re_placeholder None (numbers (before_numbers (js ''<img width="1200">''))))
       = map placeholder
           [0 ..< length (snd (mask (structural (escape_html (js ''<img width="1200">'')))))]\<close>
    using t [THEN conjunct2, THEN conjunct1] not_like(4) by blast
  have e: \<open>js ''w='' @ js ''"'' = js ''w="''\<close> \<open>js ''"'' @ js ''>'' = js ''">''\<close>
    \<open>js ''w="'' @ span ''color:#0550ae'' (js ''1200'') @ js ''">''
       = js ''w="<span style="color:#0550ae">1200</span>">''\<close>
    by (simp_all add: js_def span_def span_open_def span_close_def)
  have 2: \<open>numbers (js ''w='' @ js ''"'' @ js ''1200'' @ js ''"'' @ js ''>'')
       = js ''w="<span style="color:#0550ae">1200</span>">''\<close>
    using t [THEN conjunct2, THEN conjunct2] runs_small(6) ne
    by (simp only: e numbers_small simp_thms)
  from not_like(4) 1 runs_small(6) ne 2 show ?thesis by (intro conjI)
qed

text \<open>
  C3 (as stated, refuted). A line that is already escaped would not be escaped again. The line
  \<^verbatim>\<open>&amp;\<close> comes out as \<^verbatim>\<open>&amp;amp;\<close>.
\<close>

theorem double_escape_counterexample:
  "sublist (js ''&amp;amp;'') (highlightLine (js ''&amp;''))"
  by (simp add: hl_amp)

text \<open>
  C3 (amended). Escaping is applied once to every character of the line, whatever the line
  looks like: each \<^verbatim>\<open>&\<close>, \<^verbatim>\<open><\<close> and \<^verbatim>\<open>>\<close> becomes its entity and every other character stays. So
  the line \<^verbatim>\<open>&amp;\<close>, taken as source text, yields \<^verbatim>\<open>&amp;amp;\<close>.
\<close>

theorem escape_every_character_once:
  "escape_html raw = concat (map escape_char raw)
   \<and> highlightLine (js ''&amp;'') = js ''&amp;amp;''"
  by (simp add: escape_html_chars hl_amp)



text \<open>
  C5 (as stated, refuted). For the empty line the highlighter would produce one no-break space.
  \<open>highlightLine\<close> returns the empty string, and what the component renders in its place is not
  the no-break space U+00A0.
\<close>

theorem empty_line_counterexample:
  "highlightLine [] \<noteq> [nbsp] \<and> line_html [] \<noteq> [nbsp]"
  by (simp add: hl_empty line_html_def nbsp_def js_def)

text \<open>
  C5 (amended). For the empty line \<open>highlightLine\<close> returns the empty string, and the component
  renders one ordinary space (U+0020) in its place; what the component renders for a line is
  never empty.
\<close>

theorem empty_line_space:
  "highlightLine [] = [] \<and> line_html [] = [32] \<and> (\<forall>line. line_html line \<noteq> [])"
  by (simp add: hl_empty line_html_def Let_def js_def)

text \<open>
  C6 (as stated, refuted). A placeholder whose index has no entry in the mask table would make
  the highlighter fail. For the line \<^verbatim>\<open>__HL_TAG_5__\<close> the table is empty, and the highlighter
  returns the text \<^verbatim>\<open>undefined\<close> in place of the line.
\<close>

theorem missing_entry_counterexample:
  "mask (structural (escape_html (js ''__HL_TAG_5__''))) = (js ''__HL_TAG_5__'', [])
   \<and> highlightLine (js ''__HL_TAG_5__'') = js ''undefined''"
  by (simp add: mask_tok5 hl_tok5)

text \<open>
  C6 (amended). Unmasking a placeholder whose index has no entry in the mask table does not
  fail: the placeholder is replaced by the text \<^verbatim>\<open>undefined\<close>.
\<close>

theorem missing_entry_undefined:
  "length tags \<le> i \<Longrightarrow> unmask tags (placeholder i) = js ''undefined''"
  by (rule unmask_missing)

theorem missing_entry_undefined_witness:
  "length ([] :: jstring list) \<le> 5 \<and> unmask [] (placeholder 5) = js ''undefined''"
  using missing_entry_undefined [of "[]" 5] by simp

text \<open>
  C7 (the code departs from the claim). For the line \<^verbatim>\<open>"count": 5\<close> the key pass wraps
  \<^verbatim>\<open>"count"\<close>, but the string pass and the number pass then match inside the style attribute
  of that new span, and the opening tag of the key span is broken up.
\<close>

theorem json_key_line_output:
  \<open>highlightLine (js ''"count": 5'') =
     js ''<span style=<span style="color:#0a3069">"color:#<span style="color:#0550ae">953800</span>"</span>><span style="color:#0a3069">"count"</span></span>: <span style="color:#0550ae">5</span>''\<close>
  by (rule hl_count)

text \<open>
  C8 (as stated, refuted). For the line \<^verbatim>\<open><div class="a">\<close> no span would lie inside another.
  The output has a span inside a span.
\<close>

theorem div_overlap_counterexample:
  \<open>\<not> max_span_depth (highlightLine (js ''<div class="a">'')) \<le> 1\<close>
  by (simp add: hl_div) code_simp

text \<open>
  C8 (amended). For the line \<^verbatim>\<open><div class="a">\<close> the delimiters \<^verbatim>\<open><\<close> and \<^verbatim>\<open>>\<close>, the tag name
  and the attribute name are each wrapped once in the color of their rule; the quoted value
  \<^verbatim>\<open>"a"\<close> is wrapped twice in the same color, by the attribute rule of the tag pass and again by
  the quoted-string pass.
\<close>

theorem div_line_output:
  \<open>highlightLine (js ''<div class="a">'') =
     js ''<span style="color:#6e7781">&lt;</span><span style="color:#0550ae">div</span> <span style="color:#116329">class</span>=<span style="color:#0a3069"><span style="color:#0a3069">"a"</span></span><span style="color:#6e7781">&gt;</span>''\<close>
  by (rule hl_div)

text \<open>
  C9 (as stated, refuted). A run of digits that stands alone in the line would be wrapped in the
  number color. On the line \<^verbatim>\<open><b>123\<close> the digits stand alone after the tag, and they are not
  wrapped: in the masked text they follow a placeholder, which ends with an underscore, and
  there is no word boundary between the two.
\<close>

theorem number_after_tag_counterexample:
  \<open>no_match re_number (before_numbers (js ''<b>123''))
   \<and> highlightLine (js ''<b>123'') =
       js ''<span style="color:#6e7781">&lt;</span><span style="color:#0550ae">b</span><span style="color:#6e7781">&gt;</span>123''\<close>
  by (simp add: numbers_b123 hl_b123)

text \<open>
  C9 (amended). The number pass binds at the word boundaries of the text that it scans, the
  masked text. In that text, between a line end or a character that is neither a word character
  nor a dot and a line end or a character that is no word character, a run of word characters
  that are not all digits (\<^verbatim>\<open>item123\<close>, \<^verbatim>\<open>12px\<close>) is left as it is; and a run of digits, when
  moreover no dot follows it, is wrapped in the number color. What stands before and after is
  highlighted as it is alone. So on the line \<^verbatim>\<open>x item123 12px 123 y\<close> the number pass wraps
  \<^verbatim>\<open>123\<close> and nothing else; \<^verbatim>\<open>item123\<close> alone is left as it is and \<^verbatim>\<open>123\<close> alone is wrapped.
  Digits of the line next to a masked tag are next to the underscore of a placeholder.
\<close>

theorem number_word_boundary:
  \<open>((a = [] \<or> (\<not> is_word (last a) \<and> last a \<noteq> 46)) \<and> (b = [] \<or> \<not> is_word (hd b))
      \<and> list_all is_word w \<and> \<not> list_all is_digit w
      \<longrightarrow> numbers (a @ w @ b) = numbers a @ w @ numbers b)
   \<and> ((a = [] \<or> (\<not> is_word (last a) \<and> last a \<noteq> 46))
      \<and> (b = [] \<or> (\<not> is_word (hd b) \<and> hd b \<noteq> 46))
      \<and> list_all is_digit d \<and> d \<noteq> []
      \<longrightarrow> numbers (a @ d @ b) = numbers a @ span ''color:#0550ae'' d @ numbers b)
   \<and> highlightLine (js ''x item123 12px 123 y'')
       = js ''x item123 12px <span style="color:#0550ae">123</span> y''
   \<and> highlightLine (js ''item123'') = js ''item123''
   \<and> highlightLine (js ''123'') = js ''<span style="color:#0550ae">123</span>''\<close>
  using numbers_word_between [of a w b] numbers_digits_between [of a d b]
  by (simp add: hl_between hl_item hl_123)

theorem number_word_boundary_witness:
  \<open>\<not> is_word (last (js ''x '')) \<and> last (js ''x '') \<noteq> 46
   \<and> \<not> is_word (hd (js '' y'')) \<and> hd (js '' y'') \<noteq> 46
   \<and> list_all is_word (js ''item123'') \<and> \<not> list_all is_digit (js ''item123'')
   \<and> numbers (js ''x '' @ js ''item123'' @ js '' y'') = js ''x '' @ js ''item123'' @ js '' y''
   \<and> list_all is_word (js ''12px'') \<and> \<not> list_all is_digit (js ''12px'')
   \<and> numbers (js ''x '' @ js ''12px'' @ js '' y'') = js ''x '' @ js ''12px'' @ js '' y''
   \<and> list_all is_digit (js ''123'') \<and> js ''123'' \<noteq> []
   \<and> numbers (js ''x '' @ js ''123'' @ js '' y'')
       = js ''x '' @ span ''color:#0550ae'' (js ''123'') @ js '' y''\<close>
proof -
  have ne: "js ''123'' \<noteq> []" by (simp add: js_def)
  have 1: "numbers (js ''x '' @ js ''item123'' @ js '' y'') = js ''x '' @ js ''item123'' @ js '' y''"
    using number_word_boundary [of "js ''x ''" "js '' y''" "js ''item123''", THEN conjunct1]
      bounds_small runs_small(1,2)
    by (simp only: numbers_small simp_thms)
  have 2: "numbers (js ''x '' @ js ''12px'' @ js '' y'') = js ''x '' @ js ''12px'' @ js '' y''"
    using number_word_boundary [of "js ''x ''" "js '' y''" "js ''12px''", THEN conjunct1]
      bounds_small runs_small(3,4)
    by (simp only: numbers_small simp_thms)
  have 3: "numbers (js ''x '' @ js ''123'' @ js '' y'')
      = js ''x '' @ span ''color:#0550ae'' (js ''123'') @ js '' y''"
    using number_word_boundary [of "js ''x ''" "js '' y''" _ "js ''123''",
        THEN conjunct2, THEN conjunct1] bounds_small runs_small(5) ne
    by (simp only: numbers_small simp_thms)
  from bounds_small runs_small(1,2) 1 runs_small(3,4) 2 runs_small(5) ne 3
  show ?thesis by (intro conjI)
qed

text \<open>
  C2 (as stated, refuted). For every line whose structural passes produce \<open>N\<close> spans, the masked
  text would hold \<open>N\<close> placeholders, and the output the spans in their order and no
  placeholder. Masking replaces each tag, so that a span counts twice, once for its opening and
  once for its closing tag: the line \<^verbatim>\<open><b>\<close> gets three spans and six placeholders. And text of
  the line that reads as a placeholder is taken for one: for the line \<^verbatim>\<open><b>__HL_TAG_0__\<close> the
  table has six entries and the masked text seven placeholders; unmasking puts the first entry
  in the place of the last, and the output ends with a seventh, unclosed span. The beginning
  of a placeholder is enough: in the line \<^verbatim>\<open>__HL_TAG_1<b>\<close> it takes the two underscores of
  the placeholder that follows, and the output begins with a closing tag and the rest of that
  placeholder.
\<close>

theorem placeholder_collision_counterexample:
  \<open>count_spans (structural (escape_html (js ''<b>''))) = 3
   \<and> length (match_texts (scan re_placeholder None
         (fst (mask (structural (escape_html (js ''<b>'')))))))= 6
   \<and> length (snd (mask (structural (escape_html (js ''<b>__HL_TAG_0__''))))) = 6
   \<and> length (match_texts (scan re_placeholder None
         (fst (mask (structural (escape_html (js ''<b>__HL_TAG_0__''))))))) = 7
   \<and> highlightLine (js ''<b>__HL_TAG_0__'') =
       js ''<span style="color:#6e7781">&lt;</span><span style="color:#0550ae">b</span><span style="color:#6e7781">&gt;</span><span style="color:#6e7781">''
   \<and> highlightLine (js ''__HL_TAG_1<b>'') =
       js ''</span>HL_TAG_0__&lt;</span><span style="color:#0550ae">b</span><span style="color:#6e7781">&gt;</span>''\<close>
  by (simp add: count_spans_b mask_b tokens_b mask_b_tok0 tokens_b_tok0 hl_b_tok0 hl_head_b)

text \<open>
  C2 (amended). For every line that does not contain the beginning of a placeholder
  (\<^verbatim>\<open>__HL_TAG_\<close> and a digit), the mask table holding the \<open>N\<close> tags found in the text of the
  structural passes, in their order, the opening and the closing tag of a span being two of
  them: the masked text holds exactly the placeholders numbered \<open>0\<close> to \<open>N - 1\<close>, in this order;
  it has no \<^verbatim>\<open><\<close> and so no occurrence of an entry of the table; unmasking it as it is gives
  back the text of the structural passes. The content passes leave the placeholders in place and in order,
  unmasking puts the entry of its number in the place of each, that is the entries of the table
  in their order, and the output has no placeholder left.
\<close>

theorem mask_unmask_roundtrip:
  fixes raw :: jstring
  defines "t \<equiv> structural (escape_html raw)"
  defines "m \<equiv> fst (mask t)"
  defines "tags \<equiv> snd (mask t)"
  assumes "\<not> placeholder_like raw"
  shows "tags = match_texts (scan re_markup None t)
     \<and> match_texts (scan re_placeholder None m) = map placeholder [0 ..< length tags]
     \<and> 60 \<notin> set m
     \<and> list_all (\<lambda>e. \<not> sublist e m) tags
     \<and> unmask tags m = t
     \<and> match_texts (scan re_placeholder None (content m)) = map placeholder [0 ..< length tags]
     \<and> map (unmask tags) (map placeholder [0 ..< length tags]) = tags
     \<and> highlightLine raw = unmask tags (content m)
     \<and> no_match re_placeholder (highlightLine raw)"
proof -
  have "highlightLine raw = unmask tags (content m)"
    by (simp add: highlightLine_def t_def m_def tags_def case_prod_unfold Let_def)
  moreover have "tags = match_texts (scan re_markup None t)"
    by (simp add: tags_def mask_items_eq)
  ultimately show ?thesis
    using pipeline(1,2,6,7) [OF assms(4)] masked_no_lt [of raw] masked_no_entry [of raw]
      unmask_table [of tags]
    unfolding t_def m_def tags_def by simp
qed

theorem mask_unmask_roundtrip_witness:
  \<open>\<not> placeholder_like (js ''<b>a_b'')
   \<and> match_texts (scan re_placeholder None
        (js ''__HL_TAG_0__&lt;__HL_TAG_1____HL_TAG_2__b__HL_TAG_3____HL_TAG_4__&gt;__HL_TAG_5__a_b''))
       = map placeholder [0 ..< 6]
   \<and> match_texts (scan re_placeholder None (content
        (js ''__HL_TAG_0__&lt;__HL_TAG_1____HL_TAG_2__b__HL_TAG_3____HL_TAG_4__&gt;__HL_TAG_5__a_b'')))
       = map placeholder [0 ..< 6]
   \<and> no_match re_placeholder (highlightLine (js ''<b>a_b''))\<close>
proof -
  let ?tags = \<open>[js ''<span style="color:#6e7781">'', js ''</span>'', js ''<span style="color:#0550ae">'',
         js ''</span>'', js ''<span style="color:#6e7781">'', js ''</span>'']\<close>
  have len: "length ?tags = 6" by simp
  note r = mask_unmask_roundtrip [OF not_like(1), unfolded mask_b_ab fst_conv snd_conv len]
  have a: \<open>match_texts (scan re_placeholder None
        (js ''__HL_TAG_0__&lt;__HL_TAG_1____HL_TAG_2__b__HL_TAG_3____HL_TAG_4__&gt;__HL_TAG_5__a_b''))
       = map placeholder [0 ..< 6]\<close>
    by (rule r [THEN conjunct2, THEN conjunct1])
  have b: \<open>match_texts (scan re_placeholder None (content
        (js ''__HL_TAG_0__&lt;__HL_TAG_1____HL_TAG_2__b__HL_TAG_3____HL_TAG_4__&gt;__HL_TAG_5__a_b'')))
       = map placeholder [0 ..< 6]\<close>
    by (rule r [THEN conjunct2, THEN conjunct2, THEN conjunct2, THEN conjunct2, THEN conjunct2,
          THEN conjunct1])
  have c: \<open>no_match re_placeholder (highlightLine (js ''<b>a_b''))\<close>
    by (rule r [THEN conjunct2, THEN conjunct2, THEN conjunct2, THEN conjunct2, THEN conjunct2,
          THEN conjunct2, THEN conjunct2, THEN conjunct2])
  from not_like(1) a b c show ?thesis by (intro conjI)
qed



end
